theory Spec2Isabelle
  imports
    Main
    "HOL-Library.Word"
    "HOL-Library.Signed_Division"
    "HOL-Library.Product_Lexorder"
    "HOL-Library.List_Lexorder"
begin

unbundle bit_operations_syntax

section \<open>Positions and search results\<close>

text \<open>
  A \<open>Position\<close> is the triple \<open>(rot, row, col)\<close>; the header \<open>position.h\<close> is not part of
  the sources at hand, so the struct is taken as a triple of integers ordered
  lexicographically, which is the order \<open>std::sort\<close> uses in \<open>Normalize\<close>.
\<close>

type_synonym Position = "int \<times> int \<times> int"

record PossibleMoves =
  non_adj :: "Position list"
  adj :: "(Position \<times> Position list) list"

text \<open>\<open>std::sort\<close> followed by \<open>std::unique\<close> and \<open>resize\<close>; the flag is ignored by the source.\<close>

definition UniqueVector :: "Position list \<Rightarrow> bool \<Rightarrow> Position list" where
  "UniqueVector p unique = remdups_adj (sort p)"

definition Normalize :: "bool \<Rightarrow> PossibleMoves \<Rightarrow> PossibleMoves" where
  "Normalize unique x =
     \<lparr> non_adj = UniqueVector (non_adj x) unique,
       adj = sort (map (\<lambda>i. (fst i, UniqueVector (snd i) unique)) (adj x)) \<rparr>"


section \<open>Bit helpers\<close>

text \<open>
  Modelled from the spec: \<open>constexpr_helpers.h\<close> (\<open>pdep\<close>, \<open>pext\<close>, \<open>clz\<close>, \<open>ctz\<close>) is not
  among the sources. \<open>pdep src mask\<close> deposits the low bits of \<open>src\<close>, in order, at the set
  bits of \<open>mask\<close>; \<open>pext src mask\<close> gathers the bits of \<open>src\<close> found at the set bits of
  \<open>mask\<close> into the low bits of the result; \<open>clz\<close> and \<open>ctz\<close> count leading and trailing
  zero bits.
\<close>

text \<open>
  \<open>pdep_bits\<close> walks over the bit positions of the mask; \<open>k\<close> counts the mask bits passed
  so far, which is the index of the next source bit to deposit.
\<close>

fun pdep_bits :: "'a::len word \<Rightarrow> 'a word \<Rightarrow> nat list \<Rightarrow> nat \<Rightarrow> bool list" where
  "pdep_bits src msk [] k = []"
| "pdep_bits src msk (p # ps) k =
     (if bit msk p then bit src k # pdep_bits src msk ps (k + 1)
      else False # pdep_bits src msk ps k)"

definition pdep :: "'a::len word \<Rightarrow> 'a word \<Rightarrow> 'a word" where
  "pdep src msk = horner_sum of_bool 2 (pdep_bits src msk [0..<LENGTH('a)] 0)"

definition pext :: "'a::len word \<Rightarrow> 'a word \<Rightarrow> 'a word" where
  "pext src msk =
     horner_sum of_bool 2 (map (bit src) (filter (bit msk) [0..<LENGTH('a)]))"

definition clz :: "'a::len word \<Rightarrow> nat" where
  "clz x = length (takeWhile (\<lambda>i. \<not> bit x i) (rev [0..<LENGTH('a)]))"

definition ctz :: "'a::len word \<Rightarrow> nat" where
  "ctz x = length (takeWhile (\<lambda>i. \<not> bit x i) [0..<LENGTH('a)])"

section \<open>Gravity timing\<close>

datatype Level = kLevel18 | kLevel19 | kLevel29 | kLevel39

text \<open>C++ integer division and remainder truncate towards zero: \<open>sdiv\<close> and \<open>smod\<close>.\<close>

fun GetRow :: "int \<Rightarrow> Level \<Rightarrow> int" where
  "GetRow frame kLevel18 = frame sdiv 3"
| "GetRow frame kLevel19 = frame sdiv 2"
| "GetRow frame kLevel29 = frame"
| "GetRow frame kLevel39 = frame * 2"

fun IsDropFrame :: "int \<Rightarrow> Level \<Rightarrow> bool" where
  "IsDropFrame frame kLevel18 = (frame smod 3 = 2)"
| "IsDropFrame frame kLevel19 = (frame smod 2 = 1)"
| "IsDropFrame frame _ = True"

fun GetLastFrameOnRow :: "int \<Rightarrow> Level \<Rightarrow> int" where
  "GetLastFrameOnRow row kLevel18 = row * 3 + 2"
| "GetLastFrameOnRow row kLevel19 = row * 2 + 1"
| "GetLastFrameOnRow row kLevel29 = row"
| "GetLastFrameOnRow row kLevel39 = row sdiv 2"

section \<open>Columns and frame masks\<close>

text \<open>
  \<open>Column\<close> is \<open>uint32_t\<close> with one bit per row, bit 0 the top row; \<open>Frames\<close> is \<open>uint64_t\<close>
  with one bit per frame. The conversions between the two widths are the implicit ones of
  the source (\<open>ucast\<close> zero-extends or truncates).
\<close>

type_synonym Column = "32 word"
type_synonym Frames = "64 word"

fun ColumnToNormalFrameMask :: "Level \<Rightarrow> Column \<Rightarrow> Frames" where
  "ColumnToNormalFrameMask kLevel18 col =
     (let expanded = pdep (ucast col :: 64 word) 0x249249249249249
      in expanded OR push_bit 1 expanded OR push_bit 2 expanded)"
| "ColumnToNormalFrameMask kLevel19 col =
     (let expanded = pdep (ucast col :: 64 word) 0x5555555555
      in expanded OR push_bit 1 expanded)"
| "ColumnToNormalFrameMask kLevel29 col = ucast col"
| "ColumnToNormalFrameMask kLevel39 col = ucast (pext col (0x55555 :: 32 word))"

fun ColumnToDropFrameMask :: "Level \<Rightarrow> Column \<Rightarrow> Frames" where
  "ColumnToDropFrameMask kLevel39 col =
     ucast (pext (col AND drop_bit 1 col AND drop_bit 2 col) (0x55555 :: 32 word))"
| "ColumnToDropFrameMask level col =
     (let msk = ColumnToNormalFrameMask level col in msk AND drop_bit 1 msk)"

fun FramesToColumn :: "Level \<Rightarrow> Frames \<Rightarrow> Column" where
  "FramesToColumn kLevel18 frames =
     ucast (pext (frames OR drop_bit 1 frames OR drop_bit 2 frames) (0x249249249249249 :: 64 word))"
| "FramesToColumn kLevel19 frames =
     ucast (pext (frames OR drop_bit 1 frames) (0x5555555555 :: 64 word))"
| "FramesToColumn kLevel29 frames = ucast frames"
| "FramesToColumn kLevel39 frames = pdep (ucast frames :: 32 word) 0x55555"

text \<open>
  \<open>31 - clz(col ^ (col + (1 << start_row))) - 1\<close>, computed in \<open>int\<close>; the sum wraps in
  \<open>uint32_t\<close>.
\<close>

definition FindLockRow :: "Column \<Rightarrow> int \<Rightarrow> int" where
  "FindLockRow col start_row =
     31 - int (clz (col XOR (col + push_bit (nat start_row) 1))) - 1"


section \<open>Boards\<close>

text \<open>
  Modelled from the spec: \<open>board.h\<close> is not among the sources. A board is a 20-row by
  10-column field of bits, here one 200-bit word with the cell at \<open>(row, col)\<close> stored at
  bit \<open>col * 20 + row\<close>. \<open>Board(0, 0, 0, 0)\<close> is the board with no bit set, \<open>Set\<close> sets
  the bit of a cell, \<open>Column\<close> reads the 20 bits of a column (bit 0 the top row), \<open>&\<close> and
  \<open>==\<close> are bitwise. The search never calls \<open>Set\<close> outside the field; the model leaves
  the board unchanged there.

  In the boards given to the search a set bit means that the piece can be at that cell
  (\<open>Contains\<close> asks that every bit of a mask be set in the board, \<open>FindLockRow\<close> expects
  the bit of the start row to be set).
\<close>

type_synonym Board = "200 word"

definition Board_zero :: Board where
  "Board_zero = 0"

definition Board_Set :: "Board \<Rightarrow> int \<Rightarrow> int \<Rightarrow> Board" where
  "Board_Set b row col =
     (if 0 \<le> row \<and> row < 20 \<and> 0 \<le> col \<and> col < 10
      then b OR push_bit (nat col * 20 + nat row) 1 else b)"

definition Board_Column :: "Board \<Rightarrow> nat \<Rightarrow> Column" where
  "Board_Column b col = take_bit 20 (ucast (drop_bit (col * 20) b))"

text \<open>Check each bit in mask is set in board.\<close>

definition Contains :: "nat \<Rightarrow> Board list \<Rightarrow> Board list \<Rightarrow> bool" where
  "Contains R board msk =
     fold (\<lambda>i ret. ret \<and> (board ! i) AND (msk ! i) = msk ! i) [0..<R] True"

section \<open>Tap schedule\<close>

text \<open>
  \<open>TapTable\<close> turns the ten template arguments into cumulative frame numbers; its
  \<open>static_assert\<close> is \<open>TapTable_ok\<close>.
\<close>

definition TapTable_ok :: "int list \<Rightarrow> bool" where
  "TapTable_ok args \<longleftrightarrow>
     length args = 10 \<and> 0 \<le> args ! 0 \<and> list_all (\<lambda>i. 2 \<le> args ! i) [1..<10]"

definition TapTable :: "int list \<Rightarrow> int list" where
  "TapTable args = fold (\<lambda>i t. t[i := t ! i + t ! (i - 1)]) [1..<10] args"

definition Tap30Hz :: "int list" where
  "Tap30Hz = TapTable [0, 2, 2, 2, 2, 2, 2, 2, 2, 2]"

section \<open>Phase-1 table\<close>

text \<open>
  The fields \<open>rot\<close>, \<open>col\<close>, \<open>prev\<close> and \<open>num_taps\<close> are \<open>uint8_t\<close>; they are kept as
  natural numbers and \<open>Push\<close> reduces its arguments modulo 256.
\<close>

record TableEntry =
  e_rot :: nat
  e_col :: nat
  e_prev :: nat
  e_num_taps :: nat
  e_cannot_finish :: bool
  e_masks :: "Board list"
  e_masks_nodrop :: "Board list"

text \<open>
  The generator fills five arrays indexed by \<open>[rot][col]\<close>: \<open>masks\<close>, \<open>masks_nodrop\<close>,
  \<open>last_tap\<close>, \<open>cannot_reach\<close> and \<open>cannot_finish\<close>. They are kept together as one function
  from \<open>(rot, col)\<close> to the five values of that cell.
\<close>

record Cell =
  c_masks :: "Board list"
  c_masks_nodrop :: "Board list"
  c_last_tap :: "8 word"
  c_cannot_reach :: bool
  c_cannot_finish :: bool

definition kA :: "8 word" where "kA = 0x1"
definition kB :: "8 word" where "kB = 0x2"
definition kL :: "8 word" where "kL = 0x4"
definition kR :: "8 word" where "kR = 0x8"

definition empty_cell :: "nat \<Rightarrow> Cell" where
  "empty_cell R =
     \<lparr> c_masks = replicate R Board_zero, c_masks_nodrop = replicate R Board_zero,
       c_last_tap = 0, c_cannot_reach = False, c_cannot_finish = False \<rparr>"

text \<open>The body of the innermost loop over the frames of a segment.\<close>

definition stamp_frame :: "Level \<Rightarrow> nat \<Rightarrow> nat \<Rightarrow> int \<Rightarrow> Board list \<Rightarrow> Board list" where
  "stamp_frame level rot col frame cur =
     (let row = GetRow frame level;
          cur1 = cur[rot := Board_Set (cur ! rot) row (int col)]
      in if IsDropFrame frame level
         then (let cur2 = cur1[rot := Board_Set (cur1 ! rot) (row + 1) (int col)]
               in if level = kLevel39
                  then cur2[rot := Board_Set (cur2 ! rot) (row + 2) (int col)]
                  else cur2)
         else cur1)"

text \<open>
  The two \<open>|=\<close> on \<open>last_tap[rot][col]\<close>, under \<open>if (num_tap)\<close>.
\<close>

definition mark_last_tap :: "nat \<Rightarrow> nat \<Rightarrow> nat \<Rightarrow> nat \<Rightarrow> nat \<Rightarrow> nat \<Rightarrow> 8 word \<Rightarrow> 8 word" where
  "mark_last_tap initial_col col delta_rot num_tap num_lr_tap num_ab_tap l0 =
     (if num_tap \<noteq> 0
      then (let l1 = (if num_tap = num_lr_tap
                      then l0 OR (if col > initial_col then kR else kL) else l0)
            in if num_tap = num_ab_tap then l1 OR (if delta_rot = 3 then kB else kA) else l1)
      else l0)"

text \<open>
  The three \<open>Set\<close> calls on \<open>cur\<close>: the position before the tap, after the shift, after
  the rotation.
\<close>

definition start_masks :: "nat \<Rightarrow> nat \<Rightarrow> int \<Rightarrow> int \<Rightarrow> nat \<Rightarrow> Board list \<Rightarrow> Board list" where
  "start_masks start_rot rot start_row start_col col cur =
     (let cur1 = cur[start_rot := Board_Set (cur ! start_rot) start_row start_col];
          cur2 = cur1[start_rot := Board_Set (cur1 ! start_rot) start_row (int col)]
      in cur2[rot := Board_Set (cur2 ! rot) start_row (int col)])"

text \<open>
  One pass of the body of the loops over \<open>col\<close> and \<open>delta_rot\<close>, after the two \<open>continue\<close>
  tests on \<open>R\<close>, as a function of the cell \<open>[rot][col]\<close> it works on: \<open>gen_cell\<close> computes
  the tap counts and the two frames, \<open>gen_cell_body\<close> is the rest of the body.
\<close>

definition gen_cell_body ::
  "Level \<Rightarrow> nat \<Rightarrow> nat \<Rightarrow> nat \<Rightarrow> nat \<Rightarrow> nat \<Rightarrow> nat \<Rightarrow> nat \<Rightarrow> nat \<Rightarrow> nat \<Rightarrow> int \<Rightarrow> int \<Rightarrow>
     Cell \<Rightarrow> Cell" where
  "gen_cell_body level R initial_rot initial_col col delta_rot rot num_tap num_lr_tap num_ab_tap
       start_frame end_frame c =
     (let c1 = c\<lparr> c_last_tap :=
                   mark_last_tap initial_col col delta_rot num_tap num_lr_tap num_ab_tap
                     (c_last_tap c) \<rparr>;
          start_row = GetRow start_frame level
      in if start_row \<ge> 20 then c1\<lparr> c_cannot_reach := True \<rparr>
         else
           (let start_col = (if num_tap = num_lr_tap
                             then int col - sgn (int col - int initial_col) else int col);
                start_rot = (if num_tap = num_ab_tap
                             then ((if delta_rot = 2 then 1 else 0) + initial_rot) mod R else rot);
                cur = start_masks start_rot rot start_row start_col col (c_masks c1);
                c2 = c1\<lparr> c_masks := cur, c_masks_nodrop := cur \<rparr>
            in if GetRow end_frame level \<ge> 20 then c2\<lparr> c_cannot_finish := True \<rparr>
               else c2\<lparr> c_masks :=
                      fold (stamp_frame level rot col) [start_frame..end_frame - 1] cur \<rparr>))"

definition gen_cell ::
  "Level \<Rightarrow> nat \<Rightarrow> int list \<Rightarrow> int \<Rightarrow> nat \<Rightarrow> nat \<Rightarrow> nat \<Rightarrow> nat \<Rightarrow> Cell \<Rightarrow> Cell" where
  "gen_cell level R taps initial_frame initial_rot initial_col col delta_rot c =
     (let rot = (initial_rot + delta_rot) mod R;
          num_lr_tap = nat \<bar>int col - int initial_col\<bar>;
          num_ab_tap = (if delta_rot = 3 then 1 else delta_rot);
          num_tap = max num_ab_tap num_lr_tap;
          start_frame = (if num_tap = 0 then 0 else taps ! (num_tap - 1)) + initial_frame;
          end_frame = taps ! num_tap + initial_frame
      in gen_cell_body level R initial_rot initial_col col delta_rot rot num_tap num_lr_tap
           num_ab_tap start_frame end_frame c)"

definition gen_step ::
  "Level \<Rightarrow> nat \<Rightarrow> int list \<Rightarrow> int \<Rightarrow> nat \<Rightarrow> nat \<Rightarrow> nat \<Rightarrow> nat \<Rightarrow>
     (nat \<times> nat \<Rightarrow> Cell) \<Rightarrow> (nat \<times> nat \<Rightarrow> Cell)" where
  "gen_step level R taps initial_frame initial_rot initial_col col delta_rot g =
     (if R = 1 \<and> delta_rot \<noteq> 0 then g
      else if R = 2 \<and> delta_rot \<ge> 2 then g
      else (let rot = (initial_rot + delta_rot) mod R
            in g((rot, col) :=
                 gen_cell level R taps initial_frame initial_rot initial_col col delta_rot
                   (g (rot, col)))))"

definition gen_cells ::
  "Level \<Rightarrow> nat \<Rightarrow> int list \<Rightarrow> int \<Rightarrow> nat \<Rightarrow> nat \<Rightarrow> (nat \<times> nat \<Rightarrow> Cell)" where
  "gen_cells level R taps initial_frame initial_rot initial_col =
     fold (\<lambda>col. fold (gen_step level R taps initial_frame initial_rot initial_col col) [0..<4])
       [0..<10] (\<lambda>_. empty_cell R)"

text \<open>
  \<open>Push\<close> appends an entry unless the cell is marked \<open>cannot_reach\<close>. The entry array has
  \<open>cap\<close> elements (\<open>10 * R\<close> at every call site), and the generator runs in a constant
  expression, where a write past the end is an error: \<open>None\<close>.
\<close>

definition Push ::
  "nat \<Rightarrow> (nat \<times> nat \<Rightarrow> Cell) \<Rightarrow> nat \<Rightarrow> nat \<Rightarrow> nat \<Rightarrow> nat \<Rightarrow> nat \<Rightarrow>
     TableEntry list \<Rightarrow> TableEntry list option" where
  "Push R g cap rot0 col0 prev0 num_taps0 entries =
     (let rot = rot0 mod 256; col = col0 mod 256; prev = prev0 mod 256;
          num_taps = num_taps0 mod 256
      in if \<not> c_cannot_reach (g (rot, col))
         then (if length entries < cap
               then Some (entries @
                 [\<lparr> e_rot = rot, e_col = col, e_prev = prev, e_num_taps = num_taps,
                    e_cannot_finish = c_cannot_finish (g (rot, col)),
                    e_masks = map (\<lambda>i. c_masks (g (rot, col)) ! i) [0..<R],
                    e_masks_nodrop = map (\<lambda>i. c_masks_nodrop (g (rot, col)) ! i) [0..<R] \<rparr>])
               else None)
         else Some entries)"

definition push_if ::
  "bool \<Rightarrow> nat \<Rightarrow> (nat \<times> nat \<Rightarrow> Cell) \<Rightarrow> nat \<Rightarrow> nat \<Rightarrow> nat \<Rightarrow> nat \<Rightarrow> nat \<Rightarrow>
     TableEntry list \<Rightarrow> TableEntry list option" where
  "push_if b R g cap rot col prev num_taps entries =
     (if b then Push R g cap rot col prev num_taps entries else Some entries)"

text \<open>The body of the loop \<open>for (cur = 0; cur < sz; cur++)\<close>.\<close>

definition expand ::
  "nat \<Rightarrow> (nat \<times> nat \<Rightarrow> Cell) \<Rightarrow> nat \<Rightarrow> nat \<Rightarrow> TableEntry list \<Rightarrow> TableEntry list option" where
  "expand R g cap cur entries =
     (let rot = e_rot (entries ! cur); col = e_col (entries ! cur);
          taps = e_num_taps (entries ! cur);
          last = c_last_tap (g (rot, col));
          should_l = (col > 0 \<and> (taps = 0 \<or> last AND kL \<noteq> 0));
          should_r = (col < 9 \<and> (taps = 0 \<or> last AND kR \<noteq> 0));
          should_a = ((R > 1 \<and> taps = 0) \<or> (R = 4 \<and> taps = 1 \<and> last AND kA \<noteq> 0));
          should_b = (R = 4 \<and> taps = 0);
          nrot_a = (rot + 1) mod R;
          nrot_b = (rot + 3) mod R
      in Option.bind (push_if should_l R g cap rot (col - 1) cur (taps + 1) entries) (\<lambda>e1.
         Option.bind (push_if should_r R g cap rot (col + 1) cur (taps + 1) e1) (\<lambda>e2.
         Option.bind (push_if should_a R g cap nrot_a col cur (taps + 1) e2) (\<lambda>e3.
         Option.bind (push_if (should_a \<and> should_l) R g cap nrot_a (col - 1) cur (taps + 1) e3) (\<lambda>e4.
         Option.bind (push_if (should_a \<and> should_r) R g cap nrot_a (col + 1) cur (taps + 1) e4) (\<lambda>e5.
         Option.bind (push_if should_b R g cap nrot_b col cur (taps + 1) e5) (\<lambda>e6.
         Option.bind (push_if (should_b \<and> should_l) R g cap nrot_b (col - 1) cur (taps + 1) e6) (\<lambda>e7.
         push_if (should_b \<and> should_r) R g cap nrot_b (col + 1) cur (taps + 1) e7))))))))"

text \<open>
  The loop itself. \<open>sz\<close> is the length of the list; it cannot exceed the capacity of the
  array, which bounds the number of rounds.
\<close>

function bfs ::
  "nat \<Rightarrow> (nat \<times> nat \<Rightarrow> Cell) \<Rightarrow> nat \<Rightarrow> nat \<Rightarrow> TableEntry list \<Rightarrow> TableEntry list option" where
  "bfs R g cap cur entries =
     (if cur < length entries
      then (if length entries \<le> cap
            then (case expand R g cap cur entries of
                    None \<Rightarrow> None
                  | Some es \<Rightarrow> bfs R g cap (cur + 1) es)
            else None)
      else Some entries)"
  by pat_completeness auto
termination
  by (relation "measure (\<lambda>(R, g, cap, cur, entries). cap - cur)") auto

definition Phase1TableGen ::
  "Level \<Rightarrow> nat \<Rightarrow> int list \<Rightarrow> int \<Rightarrow> nat \<Rightarrow> nat \<Rightarrow> TableEntry list option" where
  "Phase1TableGen level R taps initial_frame initial_rot initial_col =
     (let g = gen_cells level R taps initial_frame initial_rot initial_col
      in case Push R g (10 * R) initial_rot initial_col 0 0 [] of
           None \<Rightarrow> None
         | Some es \<Rightarrow> bfs R g (10 * R) 0 es)"

text \<open>
  \<open>Position::Start.y\<close> comes from \<open>position.h\<close>; the earlier draft of the header passes
  the literal 5 at the same place.
\<close>

definition Position_Start_y :: nat where
  "Position_Start_y = 5"

record Phase1Table =
  initial :: "TableEntry list"
  adj_tables :: "TableEntry list list"

text \<open>
  The constructor of \<open>Phase1Table\<close>: the initial table, then one adjustment table per
  initial entry. \<open>those\<close> fails when one of the generator calls fails.
\<close>

definition Phase1Table_make :: "Level \<Rightarrow> nat \<Rightarrow> int \<Rightarrow> int list \<Rightarrow> Phase1Table option" where
  "Phase1Table_make level R adj_frame taps =
     (case Phase1TableGen level R taps 0 0 Position_Start_y of
        None \<Rightarrow> None
      | Some ini \<Rightarrow>
          (case those (map (\<lambda>e. Phase1TableGen level R taps
                                  (max adj_frame (taps ! e_num_taps e)) (e_rot e) (e_col e)) ini) of
             None \<Rightarrow> None
           | Some adjs \<Rightarrow> Some \<lparr> initial = ini, adj_tables = adjs \<rparr>))"

section \<open>Tuck masks\<close>

text \<open>
  \<open>kDoubleTuckAllowed\<close> and the macro \<open>DOUBLE_TUCK\<close> come from \<open>game.h\<close>, which is not
  among the sources; both are the parameter \<open>dt\<close> here.
\<close>

definition TuckTypes :: "bool \<Rightarrow> nat \<Rightarrow> nat" where
  "TuckTypes dt R = (if R = 1 then 2 else if R = 2 then 7 else 12) + (if dt then 2 else 0)"

text \<open>A tuck type is \<open>(delta_rot, delta_col, delta_frame)\<close>.\<close>

type_synonym TuckType = "nat \<times> int \<times> nat"

definition TuckTypeTable :: "bool \<Rightarrow> nat \<Rightarrow> TuckType list" where
  "TuckTypeTable dt R =
     [(0, -1, 0), (0, 1, 0)] @
     (if dt then [(0, -2, 2), (0, 2, 2)] else []) @
     (if R = 1 then []
      else [(1, 0, 0), (1, -1, 0), (1, 1, 0), (1, -1, 1), (1, 1, 1)] @
        (if R = 2 then []
         else [(3, 0, 0), (3, -1, 0), (3, 1, 0), (3, -1, 1), (3, 1, 1)]))"

record FrameMasks =
  frame :: "nat \<times> nat \<Rightarrow> Frames"
  drop :: "nat \<times> nat \<Rightarrow> Frames"

text \<open>
  \<open>GetTuckMasks\<close> assigns every element \<open>ret[k][rot][col]\<close> at most once and leaves the
  others zero, so the result is given element by element; \<open>k\<close> is the index of the source
  with \<open>x\<close> subtracted where the source adds it.
\<close>

definition tuck_lr :: "FrameMasks \<Rightarrow> nat \<Rightarrow> nat \<Rightarrow> nat \<Rightarrow> Frames" where
  "tuck_lr m k rot col =
     (if k = 0 then (if col > 0 then frame m (rot, col) AND frame m (rot, col - 1) else 0)
      else (if col < 9 then frame m (rot, col) AND frame m (rot, col + 1) else 0))"

definition tuck_double :: "FrameMasks \<Rightarrow> nat \<Rightarrow> nat \<Rightarrow> nat \<Rightarrow> Frames" where
  "tuck_double m k rot col =
     (if k = 2
      then (if col > 1
            then frame m (rot, col) AND drop m (rot, col - 1) AND drop_bit 1 (drop m (rot, col - 1))
                   AND drop_bit 2 (frame m (rot, col - 2))
            else 0)
      else (if col < 8
            then frame m (rot, col) AND drop m (rot, col + 1) AND drop_bit 1 (drop m (rot, col + 1))
                   AND drop_bit 2 (frame m (rot, col + 2))
            else 0))"

definition tuck_rotate :: "FrameMasks \<Rightarrow> nat \<Rightarrow> nat \<Rightarrow> nat \<Rightarrow> nat \<Rightarrow> Frames" where
  "tuck_rotate m j nrot rot col =
     (if j = 0 then frame m (rot, col) AND frame m (nrot, col)
      else if j = 1 then (if col > 0 then tuck_lr m 0 rot col AND frame m (nrot, col - 1) else 0)
      else if j = 2 then (if col < 9 then tuck_lr m 1 rot col AND frame m (nrot, col + 1) else 0)
      else if j = 3
      then (if col > 0
            then frame m (rot, col) AND (drop m (nrot, col) OR drop m (rot, col - 1))
                   AND drop_bit 1 (frame m (nrot, col - 1))
            else 0)
      else (if col < 9
            then frame m (rot, col) AND (drop m (nrot, col) OR drop m (rot, col + 1))
                   AND drop_bit 1 (frame m (nrot, col + 1))
            else 0))"

definition GetTuckMasks :: "bool \<Rightarrow> nat \<Rightarrow> FrameMasks \<Rightarrow> nat \<Rightarrow> nat \<times> nat \<Rightarrow> Frames" where
  "GetTuckMasks dt R m i = (\<lambda>(rot, col).
     (let x = (if dt then 2 else 0)
      in if i < 2 then tuck_lr m i rot col
         else if dt \<and> i < 4 then tuck_double m i rot col
         else if R = 1 then 0
         else if i < x + 7 then tuck_rotate m (i - (x + 2)) ((rot + 1) mod R) rot col
         else if R = 2 then 0
         else if i < x + 12 then tuck_rotate m (i - (x + 7)) ((rot + 3) mod R) rot col
         else 0))"

section \<open>The search\<close>

text \<open>
  The loop \<open>while (tuck_lock_positions) { row = ctz(...); Insert; ... ^= 1 << row; }\<close>,
  returning the rows in the order of insertion.
\<close>

lemma ctz_bit:
  fixes x :: "'a::len word"
  assumes "x \<noteq> 0"
  shows "bit x (ctz x)"
proof -
  let ?xs = "[0..<LENGTH('a)]"
  let ?P = "\<lambda>i. \<not> bit x i"
  obtain n where n: "bit x n" using assms by (auto simp: bit_eq_iff)
  then have "n \<in> set ?xs" using bit_imp_le_length [OF n] by simp
  then have "takeWhile ?P ?xs \<noteq> ?xs" using n by (auto simp only: takeWhile_eq_all_conv)
  then have "length (takeWhile ?P ?xs) \<noteq> length ?xs"
    by (metis takeWhile_eq_take take_all_iff order_refl)
  then have lt: "length (takeWhile ?P ?xs) < length ?xs"
    using length_takeWhile_le [of ?P ?xs] by linarith
  then have "\<not> ?P (?xs ! length (takeWhile ?P ?xs))" by (rule nth_length_takeWhile)
  then show ?thesis using lt by (simp add: ctz_def)
qed

lemma clear_lowest_less:
  fixes x :: "'a::len word"
  assumes "x \<noteq> 0"
  shows "x XOR push_bit (ctz x) 1 < x"
proof -
  define p :: "'a word" where "p = push_bit (ctz x) 1"
  have b: "bit x (ctz x)" using assms by (rule ctz_bit)
  then have l: "ctz x < LENGTH('a)" by (rule bit_imp_le_length)
  have bp: "bit p i \<longleftrightarrow> i = ctz x" for i
    using l by (auto simp: p_def bit_push_bit_iff bit_1_iff simp del: push_bit_of_1)
  have "x AND p = p"
    by (rule bit_word_eqI) (use b in \<open>auto simp: bit_and_iff bp\<close>)
  then have le: "p \<le> x" using word_and_le2 [of x p] by simp
  have "p \<noteq> 0" using bp [of "ctz x"] by auto
  then have p0: "0 < p" by (simp add: word_gt_0)
  have d: "(x XOR p) AND p = 0"
    by (rule bit_word_eqI) (use b in \<open>auto simp: bit_and_iff bit_xor_iff bp\<close>)
  have "(x XOR p) + p = (x XOR p) OR p" using d by (rule disjunctive_add_eq_or)
  also have "\<dots> = x"
    by (rule bit_word_eqI) (use b in \<open>auto simp: bit_or_iff bit_and_iff bit_xor_iff bp\<close>)
  finally have "x XOR p = x - p" by (simp add: algebra_simps)
  moreover have "x - p < x"
    using p0 le by (simp add: word_less_nat_alt word_le_nat_alt unat_sub)
  ultimately show ?thesis by (simp add: p_def)
qed

function emit_rows :: "Column \<Rightarrow> nat list" where
  "emit_rows x = (if x = 0 then [] else ctz x # emit_rows (x XOR push_bit (ctz x) 1))"
  by pat_completeness auto
termination
  by (relation "measure unat")
    (use clear_lowest_less in \<open>auto simp: word_less_nat_alt [symmetric] simp del: push_bit_of_1\<close>)

text \<open>
  \<open>RunPhase2\<close>, first part: every tuck type moves the frames at which the tuck can start
  to the cell it leads to.
\<close>

definition tuck_result_step ::
  "nat \<Rightarrow> (nat \<Rightarrow> nat \<times> nat \<Rightarrow> Frames) \<Rightarrow> (nat \<times> nat \<Rightarrow> Frames) \<Rightarrow> TuckType list \<Rightarrow> nat \<Rightarrow>
     (nat \<times> nat \<Rightarrow> Frames) \<Rightarrow> (nat \<times> nat \<Rightarrow> Frames)" where
  "tuck_result_step R tuck_masks can_tuck_frame_masks tucks i tuck_result =
     (case tucks ! i of (delta_rot, delta_col, delta_frame) \<Rightarrow>
        (let start_col = max 0 (- delta_col); end_col = min 10 (10 - delta_col)
         in fold (\<lambda>rot. fold (\<lambda>col tr.
                   (let nrot = (rot + delta_rot) mod R; ncol = nat (col + delta_col)
                    in tr((nrot, ncol) := tr (nrot, ncol) OR
                         push_bit delta_frame
                           (tuck_masks i (rot, nat col) AND can_tuck_frame_masks (rot, nat col)))))
                 [start_col..end_col - 1])
              [0..<R] tuck_result))"

definition tuck_lock_positions ::
  "Level \<Rightarrow> (nat \<times> nat \<Rightarrow> Column) \<Rightarrow> (nat \<times> nat \<Rightarrow> Column) \<Rightarrow> (nat \<times> nat \<Rightarrow> Frames) \<Rightarrow>
     nat \<Rightarrow> nat \<Rightarrow> Column" where
  "tuck_lock_positions level cols lock_positions_without_tuck tuck_result rot col =
     (let after_tuck_positions = FramesToColumn level (tuck_result (rot, col));
          cur = cols (rot, col)
      in drop_bit 1 (after_tuck_positions + cur) AND (cur AND drop_bit 1 (NOT cur))
           AND NOT (lock_positions_without_tuck (rot, col)))"

definition RunPhase2 ::
  "Level \<Rightarrow> nat \<Rightarrow> bool \<Rightarrow> (nat \<times> nat \<Rightarrow> Column) \<Rightarrow> (nat \<Rightarrow> nat \<times> nat \<Rightarrow> Frames) \<Rightarrow>
     (nat \<times> nat \<Rightarrow> Column) \<Rightarrow> (nat \<times> nat \<Rightarrow> Frames) \<Rightarrow> Position list \<Rightarrow> Position list" where
  "RunPhase2 level R dt cols tuck_masks lock_positions_without_tuck can_tuck_frame_masks positions =
     (let tuck_result =
            fold (tuck_result_step R tuck_masks can_tuck_frame_masks (TuckTypeTable dt R))
              [0..<TuckTypes dt R] (\<lambda>_. 0)
      in fold (\<lambda>rot. fold (\<lambda>col ps.
                ps @ map (\<lambda>row. (int rot, int row, int col))
                       (emit_rows (tuck_lock_positions level cols lock_positions_without_tuck
                                     tuck_result rot col)))
              [0..<10])
           [0..<R] positions)"

text \<open>
  \<open>DoOneSearch\<close>. The buffer \<open>positions\<close> with its fill count \<open>sz\<close> is the list of the
  positions inserted so far; \<open>can_adj\<close> is passed in and returned.
\<close>

definition reach_step ::
  "nat \<Rightarrow> Board list \<Rightarrow> TableEntry list \<Rightarrow> nat \<Rightarrow> (nat \<Rightarrow> bool) \<times> (nat \<Rightarrow> bool) \<Rightarrow>
     (nat \<Rightarrow> bool) \<times> (nat \<Rightarrow> bool)" where
  "reach_step R board entries i s =
     (case s of (can_continue, can_reach) \<Rightarrow>
        (let entry = entries ! i
         in if i \<noteq> 0 \<and> \<not> can_continue (e_prev entry) then s
            else if \<not> e_cannot_finish entry \<and> Contains R board (e_masks entry)
            then (can_continue(i := True), can_reach(i := True))
            else if \<not> Contains R board (e_masks_nodrop entry) then s
            else (can_continue, can_reach(i := True))))"

definition reach ::
  "nat \<Rightarrow> Board list \<Rightarrow> TableEntry list \<Rightarrow> (nat \<Rightarrow> bool) \<times> (nat \<Rightarrow> bool)" where
  "reach R board entries =
     fold (reach_step R board entries) [0..<length entries] (\<lambda>_. False, \<lambda>_. False)"

record SearchState =
  positions :: "Position list"
  can_adj :: "nat \<Rightarrow> bool"
  can_tuck_frame_masks :: "nat \<times> nat \<Rightarrow> Frames"
  lock_positions_without_tuck :: "nat \<times> nat \<Rightarrow> Column"
  phase_2_possible :: bool

definition total_frames :: "Level \<Rightarrow> int" where
  "total_frames level = GetLastFrameOnRow 19 level + 1"

definition entry_start_row :: "Level \<Rightarrow> int list \<Rightarrow> int \<Rightarrow> TableEntry \<Rightarrow> int" where
  "entry_start_row level taps initial_frame entry =
     GetRow ((if e_num_taps entry = 0 then 0 else taps ! (e_num_taps entry - 1)) + initial_frame)
       level"

definition entry_end_frame :: "Level \<Rightarrow> int \<Rightarrow> int list \<Rightarrow> bool \<Rightarrow> TableEntry \<Rightarrow> int" where
  "entry_end_frame level adj_frame taps is_adj entry =
     (if is_adj then total_frames level else max adj_frame (taps ! e_num_taps entry))"

definition entry_lock_row ::
  "Level \<Rightarrow> int list \<Rightarrow> int \<Rightarrow> (nat \<times> nat \<Rightarrow> Column) \<Rightarrow> TableEntry \<Rightarrow> int" where
  "entry_lock_row level taps initial_frame cols entry =
     FindLockRow (cols (e_rot entry, e_col entry)) (entry_start_row level taps initial_frame entry)"

text \<open>The body of the second loop of phase 1, for the entry at index \<open>i\<close>.\<close>

definition phase1_step ::
  "Level \<Rightarrow> int \<Rightarrow> int list \<Rightarrow> bool \<Rightarrow> int \<Rightarrow> (nat \<times> nat \<Rightarrow> Column) \<Rightarrow> TableEntry list \<Rightarrow>
     (nat \<Rightarrow> bool) \<Rightarrow> nat \<Rightarrow> SearchState \<Rightarrow> SearchState" where
  "phase1_step level adj_frame taps is_adj initial_frame cols entries can_reach i st =
     (if \<not> can_reach i then st
      else
        (let entry = entries ! i;
             end_frame = entry_end_frame level adj_frame taps is_adj entry;
             lock_row = entry_lock_row level taps initial_frame cols entry;
             lock_frame = GetLastFrameOnRow lock_row level + 1;
             st1 = (if \<not> is_adj \<and> lock_frame > end_frame
                    then st\<lparr> can_adj := (can_adj st)(i := True) \<rparr>
                    else st\<lparr> positions :=
                           positions st @ [(int (e_rot entry), lock_row, int (e_col entry))] \<rparr>);
             first_tuck_frame = initial_frame + taps ! e_num_taps entry;
             last_tuck_frame = min lock_frame end_frame;
             k = (e_rot entry, e_col entry);
             st2 = st1\<lparr> lock_positions_without_tuck :=
                         (lock_positions_without_tuck st1)
                           (k := lock_positions_without_tuck st1 k OR push_bit (nat lock_row) 1) \<rparr>
         in if last_tuck_frame > first_tuck_frame
            then st2\<lparr> can_tuck_frame_masks :=
                        (can_tuck_frame_masks st2)
                          (k := push_bit (nat last_tuck_frame) 1 - push_bit (nat first_tuck_frame) 1),
                      phase_2_possible := True \<rparr>
            else st2))"

definition phase1 ::
  "Level \<Rightarrow> int \<Rightarrow> int list \<Rightarrow> bool \<Rightarrow> int \<Rightarrow> (nat \<times> nat \<Rightarrow> Column) \<Rightarrow> TableEntry list \<Rightarrow>
     (nat \<Rightarrow> bool) \<Rightarrow> (nat \<Rightarrow> bool) \<Rightarrow> SearchState" where
  "phase1 level adj_frame taps is_adj initial_frame cols entries can_reach can_adj0 =
     fold (phase1_step level adj_frame taps is_adj initial_frame cols entries can_reach)
       [0..<length entries]
       \<lparr> positions = [], can_adj = can_adj0, can_tuck_frame_masks = (\<lambda>_. 0),
         lock_positions_without_tuck = (\<lambda>_. 0), phase_2_possible = False \<rparr>"

definition DoOneSearch ::
  "Level \<Rightarrow> nat \<Rightarrow> int \<Rightarrow> int list \<Rightarrow> bool \<Rightarrow> Phase1Table \<Rightarrow> bool \<Rightarrow> nat \<Rightarrow> Board list \<Rightarrow>
     (nat \<times> nat \<Rightarrow> Column) \<Rightarrow> (nat \<Rightarrow> nat \<times> nat \<Rightarrow> Frames) \<Rightarrow> (nat \<Rightarrow> bool) \<Rightarrow>
     Position list \<times> (nat \<Rightarrow> bool)" where
  "DoOneSearch level R adj_frame taps dt tbl is_adj initial_id board cols tuck_masks can_adj0 =
     (let initial_frame =
            (if is_adj then max adj_frame (taps ! e_num_taps (initial tbl ! initial_id)) else 0)
      in if initial_frame \<ge> total_frames level then ([], can_adj0)
         else if is_adj \<and> \<not> can_adj0 initial_id then ([], can_adj0)
         else
           (let entries = (if is_adj then adj_tables tbl ! initial_id else initial tbl);
                can_reach = snd (reach R board entries);
                st = phase1 level adj_frame taps is_adj initial_frame cols entries can_reach can_adj0
            in (if phase_2_possible st
                then RunPhase2 level R dt cols tuck_masks (lock_positions_without_tuck st)
                       (can_tuck_frame_masks st) (positions st)
                else positions st,
                can_adj st)))"

text \<open>
  \<open>Search::MoveSearch\<close> for a given table. The arrays \<open>cols\<close> and \<open>frame_masks\<close> are zero
  outside \<open>rot < R\<close>, \<open>col < 10\<close>.
\<close>

definition board_cols :: "nat \<Rightarrow> Board list \<Rightarrow> nat \<times> nat \<Rightarrow> Column" where
  "board_cols R board = (\<lambda>(rot, col).
     if rot < R \<and> col < 10 then Board_Column (board ! rot) col else 0)"

definition board_frame_masks :: "Level \<Rightarrow> nat \<Rightarrow> (nat \<times> nat \<Rightarrow> Column) \<Rightarrow> FrameMasks" where
  "board_frame_masks level R cols =
     \<lparr> frame = (\<lambda>(rot, col).
         if rot < R \<and> col < 10 then ColumnToNormalFrameMask level (cols (rot, col)) else 0),
       drop = (\<lambda>(rot, col).
         if rot < R \<and> col < 10 then ColumnToDropFrameMask level (cols (rot, col)) else 0) \<rparr>"

definition adj_step ::
  "Level \<Rightarrow> nat \<Rightarrow> int \<Rightarrow> int list \<Rightarrow> bool \<Rightarrow> Phase1Table \<Rightarrow> Board list \<Rightarrow>
     (nat \<times> nat \<Rightarrow> Column) \<Rightarrow> (nat \<Rightarrow> nat \<times> nat \<Rightarrow> Frames) \<Rightarrow> (nat \<Rightarrow> bool) \<Rightarrow> nat \<Rightarrow>
     (Position \<times> Position list) list \<Rightarrow> (Position \<times> Position list) list" where
  "adj_step level R adj_frame taps dt tbl board cols tuck_masks can_adj0 initial_id ret =
     (let entry = initial tbl ! initial_id;
          x = fst (DoOneSearch level R adj_frame taps dt tbl True initial_id board cols
                     tuck_masks can_adj0)
      in if x \<noteq> []
         then (let row = GetRow (max adj_frame (taps ! e_num_taps entry)) level
               in ret @ [((int (e_rot entry), row, int (e_col entry)), x)])
         else ret)"

definition Search_MoveSearch ::
  "Level \<Rightarrow> nat \<Rightarrow> int \<Rightarrow> int list \<Rightarrow> bool \<Rightarrow> Phase1Table \<Rightarrow> Board list \<Rightarrow> PossibleMoves" where
  "Search_MoveSearch level R adj_frame taps dt tbl board =
     (let cols = board_cols R board;
          tuck_masks = GetTuckMasks dt R (board_frame_masks level R cols);
          first = DoOneSearch level R adj_frame taps dt tbl False 0 board cols tuck_masks
                    (\<lambda>_. False)
      in \<lparr> non_adj = fst first,
           adj = fold (adj_step level R adj_frame taps dt tbl board cols tuck_masks (snd first))
                   [0..<length (initial tbl)] [] \<rparr>)"

text \<open>
  The free function \<open>MoveSearch<level, R, adj_frame, Taps>\<close>: it builds the constant
  \<open>Search\<close> object, whose table is \<open>Phase1Table_make\<close>, and runs the search. The result is
  \<open>None\<close> when the table cannot be built.
\<close>

definition MoveSearch ::
  "Level \<Rightarrow> nat \<Rightarrow> int \<Rightarrow> int list \<Rightarrow> bool \<Rightarrow> Board list \<Rightarrow> PossibleMoves option" where
  "MoveSearch level R adj_frame taps dt board =
     map_option (\<lambda>tbl. Search_MoveSearch level R adj_frame taps dt tbl board)
       (Phase1Table_make level R adj_frame taps)"

section \<open>Notions used to state the properties of the table\<close>

text \<open>
  For a cell \<open>(rot, col)\<close> of a generator run started at \<open>(initial_rot, initial_col)\<close>:
  the rotation offset, the tap count the generator computes for the cell, the frame of
  the last tap and the position the piece has before that tap.
\<close>

definition delta_of :: "nat \<Rightarrow> nat \<Rightarrow> nat \<Rightarrow> nat" where
  "delta_of R initial_rot rot = (rot + R - initial_rot) mod R"

definition num_ab :: "nat \<Rightarrow> nat" where
  "num_ab delta_rot = (if delta_rot = 3 then 1 else delta_rot)"

definition num_lr :: "nat \<Rightarrow> nat \<Rightarrow> nat" where
  "num_lr initial_col col = nat \<bar>int col - int initial_col\<bar>"

definition num_tap_of :: "nat \<Rightarrow> nat \<Rightarrow> nat \<Rightarrow> nat \<times> nat \<Rightarrow> nat" where
  "num_tap_of R initial_rot initial_col = (\<lambda>(rot, col).
     max (num_ab (delta_of R initial_rot rot)) (num_lr initial_col col))"

definition tap_frame :: "int list \<Rightarrow> int \<Rightarrow> nat \<Rightarrow> int" where
  "tap_frame taps initial_frame n = (if n = 0 then 0 else taps ! (n - 1)) + initial_frame"

definition before_tap :: "nat \<Rightarrow> nat \<Rightarrow> nat \<Rightarrow> nat \<times> nat \<Rightarrow> nat \<times> nat" where
  "before_tap R initial_rot initial_col = (\<lambda>(rot, col).
     (let d = delta_of R initial_rot rot;
          n = num_tap_of R initial_rot initial_col (rot, col)
      in ((if n = num_ab d then ((if d = 2 then 1 else 0) + initial_rot) mod R else rot),
          (if n = num_lr initial_col col
           then nat (int col - sgn (int col - int initial_col)) else col))))"

definition e_pos :: "TableEntry \<Rightarrow> nat \<times> nat" where
  "e_pos e = (e_rot e, e_col e)"

text \<open>The positions the loop body tries to push from an entry, in the order of the source.\<close>

definition candidates :: "nat \<Rightarrow> nat \<Rightarrow> nat \<Rightarrow> nat \<Rightarrow> bool \<Rightarrow> bool \<Rightarrow> bool \<Rightarrow> (nat \<times> nat) list" where
  "candidates R rot col taps has_l has_r has_a =
     (let should_l = (col > 0 \<and> (taps = 0 \<or> has_l));
          should_r = (col < 9 \<and> (taps = 0 \<or> has_r));
          should_a = ((R > 1 \<and> taps = 0) \<or> (R = 4 \<and> taps = 1 \<and> has_a));
          should_b = (R = 4 \<and> taps = 0);
          nrot_a = (rot + 1) mod R;
          nrot_b = (rot + 3) mod R
      in (if should_l then [(rot, col - 1)] else []) @
         (if should_r then [(rot, col + 1)] else []) @
         (if should_a then [(nrot_a, col)] else []) @
         (if should_a \<and> should_l then [(nrot_a, col - 1)] else []) @
         (if should_a \<and> should_r then [(nrot_a, col + 1)] else []) @
         (if should_b then [(nrot_b, col)] else []) @
         (if should_b \<and> should_l then [(nrot_b, col - 1)] else []) @
         (if should_b \<and> should_r then [(nrot_b, col + 1)] else []))"

definition push_all ::
  "nat \<Rightarrow> (nat \<times> nat \<Rightarrow> Cell) \<Rightarrow> nat \<Rightarrow> nat \<Rightarrow> nat \<Rightarrow> (nat \<times> nat) list \<Rightarrow>
     TableEntry list \<Rightarrow> TableEntry list option" where
  "push_all R g cap prev n cs entries =
     fold (\<lambda>q r. Option.bind r (Push R g cap (fst q) (snd q) prev n)) cs (Some entries)"

definition make_entry :: "nat \<Rightarrow> (nat \<times> nat \<Rightarrow> Cell) \<Rightarrow> nat \<Rightarrow> nat \<Rightarrow> nat \<times> nat \<Rightarrow> TableEntry" where
  "make_entry R g prev n q =
     \<lparr> e_rot = fst q, e_col = snd q, e_prev = prev, e_num_taps = n,
       e_cannot_finish = c_cannot_finish (g q),
       e_masks = map (\<lambda>i. c_masks (g q) ! i) [0..<R],
       e_masks_nodrop = map (\<lambda>i. c_masks_nodrop (g q) ! i) [0..<R] \<rparr>"

definition valid_delta :: "nat \<Rightarrow> nat \<Rightarrow> bool" where
  "valid_delta R d \<longleftrightarrow> \<not> (R = 1 \<and> d \<noteq> 0) \<and> \<not> (R = 2 \<and> d \<ge> 2)"


text \<open>
  The same notions in terms of the rotation offset instead of the rotation, and what it
  means for a position to be pushed from another.
\<close>

definition nt_d :: "nat \<Rightarrow> nat \<times> nat \<Rightarrow> nat" where
  "nt_d ic = (\<lambda>(d, col). max (num_ab d) (num_lr ic col))"

definition before_d :: "nat \<Rightarrow> nat \<times> nat \<Rightarrow> nat \<times> nat" where
  "before_d ic = (\<lambda>(d, col).
     ((if nt_d ic (d, col) = num_ab d then (if d = 2 then 1 else 0) else d),
      (if nt_d ic (d, col) = num_lr ic col
       then nat (int col - sgn (int col - int ic)) else col)))"

definition child_d :: "nat \<Rightarrow> nat \<Rightarrow> nat \<times> nat \<Rightarrow> nat \<times> nat \<Rightarrow> bool" where
  "child_d R ic p q \<longleftrightarrow>
     fst q < R \<and> snd q < 10 \<and> nt_d ic q = nt_d ic p + 1 \<and> before_d ic q = p"

definition cands_d :: "nat \<Rightarrow> nat \<Rightarrow> nat \<times> nat \<Rightarrow> (nat \<times> nat) list" where
  "cands_d R ic = (\<lambda>(d, col).
     candidates R d col (nt_d ic (d, col))
       (nt_d ic (d, col) \<noteq> 0 \<and> nt_d ic (d, col) = num_lr ic col \<and> \<not> col > ic)
       (nt_d ic (d, col) \<noteq> 0 \<and> nt_d ic (d, col) = num_lr ic col \<and> col > ic)
       (nt_d ic (d, col) \<noteq> 0 \<and> nt_d ic (d, col) = num_ab d \<and> d \<noteq> 3))"

definition flag_l :: "nat \<Rightarrow> nat \<Rightarrow> nat \<Rightarrow> nat \<times> nat \<Rightarrow> bool" where
  "flag_l R ir ic p \<longleftrightarrow> num_tap_of R ir ic p \<noteq> 0 \<and> num_tap_of R ir ic p = num_lr ic (snd p) \<and>
     \<not> snd p > ic"

definition flag_r :: "nat \<Rightarrow> nat \<Rightarrow> nat \<Rightarrow> nat \<times> nat \<Rightarrow> bool" where
  "flag_r R ir ic p \<longleftrightarrow> num_tap_of R ir ic p \<noteq> 0 \<and> num_tap_of R ir ic p = num_lr ic (snd p) \<and>
     snd p > ic"

definition flag_a :: "nat \<Rightarrow> nat \<Rightarrow> nat \<Rightarrow> nat \<times> nat \<Rightarrow> bool" where
  "flag_a R ir ic p \<longleftrightarrow> num_tap_of R ir ic p \<noteq> 0 \<and>
     num_tap_of R ir ic p = num_ab (delta_of R ir (fst p)) \<and> delta_of R ir (fst p) \<noteq> 3"

definition children :: "nat \<Rightarrow> nat \<Rightarrow> nat \<Rightarrow> nat \<times> nat \<Rightarrow> (nat \<times> nat) list" where
  "children R ir ic p =
     candidates R (fst p) (snd p) (num_tap_of R ir ic p) (flag_l R ir ic p) (flag_r R ir ic p)
       (flag_a R ir ic p)"

definition child_ok :: "nat \<Rightarrow> nat \<Rightarrow> nat \<Rightarrow> nat \<times> nat \<Rightarrow> nat \<times> nat \<Rightarrow> bool" where
  "child_ok R ir ic p q \<longleftrightarrow>
     fst q < R \<and> snd q < 10 \<and> num_tap_of R ir ic q = num_tap_of R ir ic p + 1 \<and>
     before_tap R ir ic q = p"

definition cells_ok :: "nat \<Rightarrow> nat \<Rightarrow> nat \<Rightarrow> (nat \<times> nat \<Rightarrow> Cell) \<Rightarrow> bool" where
  "cells_ok R ir ic g \<longleftrightarrow>
     (\<forall>rot col. rot < R \<and> col < 10 \<longrightarrow>
        (c_last_tap (g (rot, col)) AND kL \<noteq> 0 \<longleftrightarrow> flag_l R ir ic (rot, col)) \<and>
        (c_last_tap (g (rot, col)) AND kR \<noteq> 0 \<longleftrightarrow> flag_r R ir ic (rot, col)) \<and>
        (c_last_tap (g (rot, col)) AND kA \<noteq> 0 \<longleftrightarrow> flag_a R ir ic (rot, col)))"

definition entry_ok :: "nat \<Rightarrow> nat \<Rightarrow> nat \<Rightarrow> (nat \<times> nat \<Rightarrow> Cell) \<Rightarrow> TableEntry \<Rightarrow> bool" where
  "entry_ok R ir ic g e \<longleftrightarrow>
     e_rot e < R \<and> e_col e < 10 \<and> \<not> c_cannot_reach (g (e_pos e)) \<and>
     e = make_entry R g (e_prev e) (num_tap_of R ir ic (e_pos e)) (e_pos e)"

definition table_inv ::
  "nat \<Rightarrow> nat \<Rightarrow> nat \<Rightarrow> (nat \<times> nat \<Rightarrow> Cell) \<Rightarrow> nat \<Rightarrow> TableEntry list \<Rightarrow> bool" where
  "table_inv R ir ic g cur es \<longleftrightarrow>
     es \<noteq> [] \<and> cur \<le> length es \<and> e_pos (es ! 0) = (ir, ic) \<and> e_prev (es ! 0) = 0 \<and>
     list_all (entry_ok R ir ic g) es \<and> distinct (map e_pos es) \<and>
     (\<forall>j. 0 < j \<and> j < length es \<longrightarrow>
        e_prev (es ! j) < j \<and> e_prev (es ! j) < cur \<and>
        e_pos (es ! e_prev (es ! j)) = before_tap R ir ic (e_pos (es ! j)))"

definition table_ok :: "nat \<Rightarrow> nat \<Rightarrow> nat \<Rightarrow> (nat \<times> nat \<Rightarrow> Cell) \<Rightarrow> TableEntry list \<Rightarrow> bool" where
  "table_ok R ir ic g es \<longleftrightarrow> es = [] \<or> table_inv R ir ic g (length es) es"

definition reach_closed ::
  "nat \<Rightarrow> Board list \<Rightarrow> TableEntry list \<Rightarrow> (nat \<Rightarrow> bool) \<Rightarrow> (nat \<Rightarrow> bool) \<Rightarrow> nat \<Rightarrow> bool" where
  "reach_closed R board es cc cr i \<longleftrightarrow>
     (cc i \<longleftrightarrow> (i = 0 \<or> cc (e_prev (es ! i))) \<and>
        \<not> e_cannot_finish (es ! i) \<and> Contains R board (e_masks (es ! i))) \<and>
     (cr i \<longleftrightarrow> (i = 0 \<or> cc (e_prev (es ! i))) \<and>
        ((\<not> e_cannot_finish (es ! i) \<and> Contains R board (e_masks (es ! i))) \<or>
         Contains R board (e_masks_nodrop (es ! i))))"

text \<open>
  The quantities the second loop of phase 1 computes for an entry: the frame after the last
  one on the lock row, the two ends of the tuck window, the placement and the mask of the
  window.
\<close>

definition entry_lock_frame ::
  "Level \<Rightarrow> int list \<Rightarrow> int \<Rightarrow> (nat \<times> nat \<Rightarrow> Column) \<Rightarrow> TableEntry \<Rightarrow> int" where
  "entry_lock_frame level taps initial_frame cols entry =
     GetLastFrameOnRow (entry_lock_row level taps initial_frame cols entry) level + 1"

definition entry_first_tuck :: "int list \<Rightarrow> int \<Rightarrow> TableEntry \<Rightarrow> int" where
  "entry_first_tuck taps initial_frame entry = initial_frame + taps ! e_num_taps entry"

definition entry_last_tuck ::
  "Level \<Rightarrow> int \<Rightarrow> int list \<Rightarrow> bool \<Rightarrow> int \<Rightarrow> (nat \<times> nat \<Rightarrow> Column) \<Rightarrow> TableEntry \<Rightarrow> int" where
  "entry_last_tuck level adj_frame taps is_adj initial_frame cols entry =
     min (entry_lock_frame level taps initial_frame cols entry)
         (entry_end_frame level adj_frame taps is_adj entry)"

definition entry_placement ::
  "Level \<Rightarrow> int list \<Rightarrow> int \<Rightarrow> (nat \<times> nat \<Rightarrow> Column) \<Rightarrow> TableEntry \<Rightarrow> Position" where
  "entry_placement level taps initial_frame cols entry =
     (int (e_rot entry), entry_lock_row level taps initial_frame cols entry, int (e_col entry))"

definition window_mask :: "int \<Rightarrow> int \<Rightarrow> Frames" where
  "window_mask first_tuck_frame last_tuck_frame =
     push_bit (nat last_tuck_frame) 1 - push_bit (nat first_tuck_frame) 1"


section \<open>The frame codec\<close>

lemma pdep_bits_length: "length (pdep_bits src msk ps k) = length ps"
  by (induction ps arbitrary: k) auto

lemma pdep_bits_nth:
  "n < length ps \<Longrightarrow>
     pdep_bits src msk ps k ! n \<longleftrightarrow>
       bit msk (ps ! n) \<and> bit src (k + length (filter (bit msk) (take n ps)))"
proof (induction ps arbitrary: k n)
  case Nil
  then show ?case by simp
next
  case (Cons p ps)
  show ?case
  proof (cases n)
    case 0
    then show ?thesis by simp
  next
    case (Suc m)
    then have "m < length ps" using Cons.prems by simp
    then show ?thesis using Cons.IH [of m] Suc by simp
  qed
qed

lemma bit_pdep:
  fixes src msk :: "'a::len word"
  shows "bit (pdep src msk) n \<longleftrightarrow>
    n < LENGTH('a) \<and> bit msk n \<and> bit src (length (filter (bit msk) [0..<n]))"
proof (cases "n < LENGTH('a)")
  case True
  then have "take n [0..<LENGTH('a)] = [0..<n]" by (simp add: take_upt)
  then show ?thesis
    using True pdep_bits_nth [of n "[0..<LENGTH('a)]" src msk 0]
    by (simp add: pdep_def bit_horner_sum_bit_word_iff pdep_bits_length)
next
  case False
  then show ?thesis by (simp add: pdep_def bit_horner_sum_bit_word_iff pdep_bits_length)
qed

lemma bit_pext:
  fixes src msk :: "'a::len word"
  shows "bit (pext src msk) n \<longleftrightarrow>
    n < length (filter (bit msk) [0..<LENGTH('a)]) \<and> bit src (filter (bit msk) [0..<LENGTH('a)] ! n)"
  using length_filter_le [of "bit msk" "[0..<LENGTH('a)]"]
  by (auto simp: pext_def bit_horner_sum_bit_word_iff)

lemma filter_less_upt: "filter (\<lambda>j. j < i) [0..<k] = [0..<min i k]"
proof (induction k)
  case (Suc k)
  show ?case
  proof (cases "k < i")
    case True
    then have "min i (Suc k) = Suc k" "min i k = k" by simp_all
    then show ?thesis using Suc True by simp
  next
    case False
    then have "min i (Suc k) = min i k" by simp
    then show ?thesis using Suc False by simp
  qed
qed simp

lemma filter_prefix:
  assumes "n \<le> k"
  shows "filter P [0..<n] = filter (\<lambda>p. p < n) (filter P [0..<k])"
proof -
  have "[0..<k] = [0..<n] @ [n..<k]"
    using assms by (metis le_add_diff_inverse upt_add_eq_append zero_le)
  moreover have "filter (\<lambda>p. p < n \<and> P p) [0..<n] = filter P [0..<n]"
    by (rule filter_cong) auto
  moreover have "filter (\<lambda>p. p < n \<and> P p) [n..<k] = []"
    by (auto simp: filter_empty_conv)
  ultimately show ?thesis by (simp add: conj_commute)
qed

lemma bit_at_positions:
  fixes msk :: "'a::len word"
  assumes "filter (bit msk) [0..<LENGTH('a)] = map f [0..<k]"
  shows "bit msk n \<longleftrightarrow> (\<exists>i<k. n = f i)"
proof -
  have "bit msk n \<longleftrightarrow> n \<in> set (filter (bit msk) [0..<LENGTH('a)])"
    using bit_imp_le_length [of msk n] by auto
  then show ?thesis unfolding assms by auto
qed

lemma bit_pdep_positions:
  fixes src msk :: "'a::len word"
  assumes pos: "filter (bit msk) [0..<LENGTH('a)] = map f [0..<k]"
    and mono: "\<And>i j. f j < f i \<longleftrightarrow> j < i"
  shows "bit (pdep src msk) n \<longleftrightarrow> (\<exists>i<k. n = f i \<and> bit src i)"
proof -
  have cnt: "length (filter (bit msk) [0..<f i]) = i" if "i < k" for i
  proof -
    have "bit msk (f i)" using that bit_at_positions [OF pos] by blast
    then have "f i \<le> LENGTH('a)" using bit_imp_le_length [of msk "f i"] by simp
    then have "filter (bit msk) [0..<f i] = filter (\<lambda>p. p < f i) (map f [0..<k])"
      using filter_prefix [of "f i" "LENGTH('a)" "bit msk"] pos by simp
    also have "\<dots> = map f (filter (\<lambda>j. j < i) [0..<k])"
      by (simp add: filter_map o_def mono)
    finally show ?thesis using that by (simp add: filter_less_upt)
  qed
  show ?thesis
  proof
    assume "bit (pdep src msk) n"
    then have b: "bit msk n" "bit src (length (filter (bit msk) [0..<n]))"
      by (simp_all add: bit_pdep)
    then obtain i where i: "i < k" "n = f i" using bit_at_positions [OF pos] by blast
    then show "\<exists>i<k. n = f i \<and> bit src i" using b(2) cnt by auto
  next
    assume "\<exists>i<k. n = f i \<and> bit src i"
    then obtain i where i: "i < k" "n = f i" "bit src i" by blast
    then have b: "bit msk n" using bit_at_positions [OF pos] by blast
    then show "bit (pdep src msk) n"
      using i cnt bit_imp_le_length [OF b] by (simp add: bit_pdep)
  qed
qed

lemma bit_pext_positions:
  fixes src msk :: "'a::len word"
  assumes pos: "filter (bit msk) [0..<LENGTH('a)] = map f [0..<k]"
  shows "bit (pext src msk) n \<longleftrightarrow> n < k \<and> bit src (f n)"
  unfolding bit_pext pos by auto

lemma mask18_positions:
  "filter (bit (0x249249249249249 :: 64 word)) [0..<LENGTH(64)] = map (\<lambda>i. 3 * i) [0..<20]"
  by code_simp

lemma mask19_positions:
  "filter (bit (0x5555555555 :: 64 word)) [0..<LENGTH(64)] = map (\<lambda>i. 2 * i) [0..<20]"
  by code_simp

lemma mask39_positions:
  "filter (bit (0x55555 :: 32 word)) [0..<LENGTH(32)] = map (\<lambda>i. 2 * i) [0..<10]"
  by code_simp

lemma bit_pdep18:
  fixes x :: "64 word"
  shows "bit (pdep x 0x249249249249249) n \<longleftrightarrow> n < 60 \<and> n mod 3 = 0 \<and> bit x (n div 3)"
proof -
  have "(\<exists>i<20. n = 3 * i \<and> bit x i) \<longleftrightarrow> n < 60 \<and> n mod 3 = 0 \<and> bit x (n div 3)"
    by auto
  then show ?thesis
    using bit_pdep_positions [OF mask18_positions, of x n] by simp
qed

lemma bit_pext18:
  fixes x :: "64 word"
  shows "bit (pext x 0x249249249249249) n \<longleftrightarrow> n < 20 \<and> bit x (3 * n)"
  by (rule bit_pext_positions [OF mask18_positions])

lemma bit_pdep19:
  fixes x :: "64 word"
  shows "bit (pdep x 0x5555555555) n \<longleftrightarrow> n < 40 \<and> n mod 2 = 0 \<and> bit x (n div 2)"
proof -
  have "(\<exists>i<20. n = 2 * i \<and> bit x i) \<longleftrightarrow> n < 40 \<and> n mod 2 = 0 \<and> bit x (n div 2)"
    by auto
  then show ?thesis
    using bit_pdep_positions [OF mask19_positions, of x n] by simp
qed

lemma bit_pext19:
  fixes x :: "64 word"
  shows "bit (pext x 0x5555555555) n \<longleftrightarrow> n < 20 \<and> bit x (2 * n)"
  by (rule bit_pext_positions [OF mask19_positions])

lemma bit_mask39: "bit (0x55555 :: 32 word) n \<longleftrightarrow> n < 20 \<and> n mod 2 = 0"
proof -
  have "(\<exists>i<10. n = 2 * i) \<longleftrightarrow> n < 20 \<and> n mod 2 = 0" by presburger
  then show ?thesis using bit_at_positions [OF mask39_positions, of n] by simp
qed

lemma bit_pdep39:
  fixes x :: "32 word"
  shows "bit (pdep x 0x55555) n \<longleftrightarrow> n < 20 \<and> n mod 2 = 0 \<and> bit x (n div 2)"
proof -
  have "(\<exists>i<10. n = 2 * i \<and> bit x i) \<longleftrightarrow> n < 20 \<and> n mod 2 = 0 \<and> bit x (n div 2)"
    by auto
  then show ?thesis
    using bit_pdep_positions [OF mask39_positions, of x n] by simp
qed

lemma bit_pext39:
  fixes x :: "32 word"
  shows "bit (pext x 0x55555) n \<longleftrightarrow> n < 10 \<and> bit x (2 * n)"
  by (rule bit_pext_positions [OF mask39_positions])


lemma bit_below:
  fixes c :: "'a::len word"
  assumes "c < 2 ^ k" "bit c n"
  shows "n < k"
proof -
  have "c AND mask k = c" using assms(1) by (rule less_mask_eq)
  then have "bit (c AND mask k) n" using assms(2) by simp
  then show ?thesis by (simp add: bit_and_iff bit_mask_iff)
qed

lemma bit_ucast_col: "bit (ucast (c :: Column) :: Frames) n \<longleftrightarrow> bit c n"
  using bit_imp_le_length [of c n] by (auto simp: bit_ucast_iff)

lemma bit_shifted:
  fixes e :: "'a::len word"
  shows "bit (push_bit j e) f \<longleftrightarrow> j \<le> f \<and> f < LENGTH('a) \<and> bit e (f - j)"
  unfolding bit_push_bit_iff possible_bit_word by blast

lemma bit_frames_18:
  "bit (ColumnToNormalFrameMask kLevel18 c) f \<longleftrightarrow> f < 60 \<and> bit c (f div 3)"
proof -
  define e :: Frames where "e = pdep (ucast c) 0x249249249249249"
  have e: "bit e p \<longleftrightarrow> p < 60 \<and> p mod 3 = 0 \<and> bit c (p div 3)" for p
    unfolding e_def bit_pdep18 bit_ucast_col ..
  have l: "bit (ColumnToNormalFrameMask kLevel18 c) f \<longleftrightarrow>
      bit e f \<or> bit (push_bit 1 e) f \<or> bit (push_bit 2 e) f"
    unfolding ColumnToNormalFrameMask.simps Let_def bit_or_iff e_def by blast
  show ?thesis
  proof
    assume "bit (ColumnToNormalFrameMask kLevel18 c) f"
    then consider "bit e f" | "1 \<le> f" "bit e (f - 1)" | "2 \<le> f" "bit e (f - 2)"
      unfolding l bit_shifted by blast
    then show "f < 60 \<and> bit c (f div 3)"
    proof cases
      case 1
      then show ?thesis using e by blast
    next
      case 2
      then have "f - 1 < 60" "(f - 1) mod 3 = 0" "bit c ((f - 1) div 3)" using e by blast+
      moreover from this \<open>1 \<le> f\<close> have "(f - 1) div 3 = f div 3" "f < 60" by presburger+
      ultimately show ?thesis by simp
    next
      case 3
      then have "f - 2 < 60" "(f - 2) mod 3 = 0" "bit c ((f - 2) div 3)" using e by blast+
      moreover from this \<open>2 \<le> f\<close> have "(f - 2) div 3 = f div 3" "f < 60" by presburger+
      ultimately show ?thesis by simp
    qed
  next
    assume a: "f < 60 \<and> bit c (f div 3)"
    then have f64: "f < LENGTH(64)" by simp
    have a1: "f < 60" using a by simp
    have "f mod 3 = 0 \<or> f mod 3 = 1 \<or> f mod 3 = 2" by presburger
    then consider "f mod 3 = 0" | "f mod 3 = 1" | "f mod 3 = 2" by auto
    then show "bit (ColumnToNormalFrameMask kLevel18 c) f"
    proof cases
      case 1
      then show ?thesis unfolding l e using a by blast
    next
      case 2
      then have "1 \<le> f" "(f - 1) mod 3 = 0" "(f - 1) div 3 = f div 3" "f - 1 < 60"
        using a1 by presburger+
      then have "bit (push_bit 1 e) f"
        unfolding bit_shifted e using a f64 by simp
      then show ?thesis unfolding l by blast
    next
      case 3
      then have "2 \<le> f" "(f - 2) mod 3 = 0" "(f - 2) div 3 = f div 3" "f - 2 < 60"
        using a1 by presburger+
      then have "bit (push_bit 2 e) f"
        unfolding bit_shifted e using a f64 by simp
      then show ?thesis unfolding l by blast
    qed
  qed
qed

lemma bit_frames_19:
  "bit (ColumnToNormalFrameMask kLevel19 c) f \<longleftrightarrow> f < 40 \<and> bit c (f div 2)"
proof -
  define e :: Frames where "e = pdep (ucast c) 0x5555555555"
  have e: "bit e p \<longleftrightarrow> p < 40 \<and> p mod 2 = 0 \<and> bit c (p div 2)" for p
    unfolding e_def bit_pdep19 bit_ucast_col ..
  have l: "bit (ColumnToNormalFrameMask kLevel19 c) f \<longleftrightarrow> bit e f \<or> bit (push_bit 1 e) f"
    unfolding ColumnToNormalFrameMask.simps Let_def bit_or_iff e_def by blast
  show ?thesis
  proof
    assume "bit (ColumnToNormalFrameMask kLevel19 c) f"
    then consider "bit e f" | "1 \<le> f" "bit e (f - 1)"
      unfolding l bit_shifted by blast
    then show "f < 40 \<and> bit c (f div 2)"
    proof cases
      case 1
      then show ?thesis using e by blast
    next
      case 2
      then have "f - 1 < 40" "(f - 1) mod 2 = 0" "bit c ((f - 1) div 2)" using e by blast+
      moreover from this \<open>1 \<le> f\<close> have "(f - 1) div 2 = f div 2" "f < 40" by presburger+
      ultimately show ?thesis by simp
    qed
  next
    assume a: "f < 40 \<and> bit c (f div 2)"
    then have f64: "f < LENGTH(64)" by simp
    have a1: "f < 40" using a by simp
    have "f mod 2 = 0 \<or> f mod 2 = 1" by presburger
    then consider "f mod 2 = 0" | "f mod 2 = 1" by auto
    then show "bit (ColumnToNormalFrameMask kLevel19 c) f"
    proof cases
      case 1
      then show ?thesis unfolding l e using a by blast
    next
      case 2
      then have "1 \<le> f" "(f - 1) mod 2 = 0" "(f - 1) div 2 = f div 2" "f - 1 < 40"
        using a1 by presburger+
      then have "bit (push_bit 1 e) f"
        unfolding bit_shifted e using a f64 by simp
      then show ?thesis unfolding l by blast
    qed
  qed
qed

lemma bit_frames_29:
  "bit (ColumnToNormalFrameMask kLevel29 c) f \<longleftrightarrow> bit c f"
  using bit_imp_le_length [of c f] by (auto simp: bit_ucast_iff)

lemma bit_frames_39:
  "bit (ColumnToNormalFrameMask kLevel39 c) f \<longleftrightarrow> f < 10 \<and> bit c (2 * f)"
  by (auto simp: bit_ucast_iff bit_pext39)

lemma bit_column_18:
  "bit (FramesToColumn kLevel18 fr) n \<longleftrightarrow>
     n < 20 \<and> (bit fr (3 * n) \<or> bit fr (3 * n + 1) \<or> bit fr (3 * n + 2))"
  by (auto simp: bit_ucast_iff bit_pext18 bit_or_iff bit_drop_bit_eq add.commute)

lemma bit_column_19:
  "bit (FramesToColumn kLevel19 fr) n \<longleftrightarrow> n < 20 \<and> (bit fr (2 * n) \<or> bit fr (2 * n + 1))"
  by (auto simp: bit_ucast_iff bit_pext19 bit_or_iff bit_drop_bit_eq add.commute)

lemma bit_column_29:
  "bit (FramesToColumn kLevel29 fr) n \<longleftrightarrow> n < 32 \<and> bit fr n"
  by (auto simp: bit_ucast_iff)

lemma bit_column_39:
  "bit (FramesToColumn kLevel39 fr) n \<longleftrightarrow> n < 20 \<and> n mod 2 = 0 \<and> bit fr (n div 2)"
  by (auto simp: bit_ucast_iff bit_pdep39)

lemma roundtrip18:
  assumes "c < 2 ^ 20"
  shows "FramesToColumn kLevel18 (ColumnToNormalFrameMask kLevel18 c) = c"
proof (rule bit_word_eqI)
  fix n assume "n < LENGTH(32)"
  have m: "(3 * n + 1) div 3 = n" "(3 * n + 2) div 3 = n" by presburger+
  show "bit (FramesToColumn kLevel18 (ColumnToNormalFrameMask kLevel18 c)) n = bit c n"
    unfolding bit_column_18 bit_frames_18 using bit_below [OF assms, of n] m by auto
qed

lemma roundtrip19:
  assumes "c < 2 ^ 20"
  shows "FramesToColumn kLevel19 (ColumnToNormalFrameMask kLevel19 c) = c"
proof (rule bit_word_eqI)
  fix n assume "n < LENGTH(32)"
  have m: "(2 * n + 1) div 2 = n" by presburger
  show "bit (FramesToColumn kLevel19 (ColumnToNormalFrameMask kLevel19 c)) n = bit c n"
    unfolding bit_column_19 bit_frames_19 using bit_below [OF assms, of n] m by auto
qed

lemma roundtrip29:
  "FramesToColumn kLevel29 (ColumnToNormalFrameMask kLevel29 c) = c"
  by (rule bit_word_eqI) (auto simp: bit_ucast_iff)

lemma roundtrip39:
  "FramesToColumn kLevel39 (ColumnToNormalFrameMask kLevel39 c) = c AND 0x55555"
proof (rule bit_word_eqI)
  fix n assume n: "n < LENGTH(32)"
  have m: "n mod 2 = 0 \<Longrightarrow> 2 * (n div 2) = n" "n < 20 \<Longrightarrow> n div 2 < 10"
    by presburger+
  show "bit (FramesToColumn kLevel39 (ColumnToNormalFrameMask kLevel39 c)) n = bit (c AND 0x55555) n"
    unfolding bit_column_39 bit_frames_39 bit_and_iff using m bit_mask39 [of n] n by auto
qed

text \<open>
  C2 (as amended). For every 20-bit column \<open>c\<close>, converting to the normal frame mask and back
  returns \<open>c\<close> at levels 18, 19 and 29; at level 39, where the piece is only ever on even
  rows, it returns the even rows of \<open>c\<close>, that is \<open>c AND 0x55555\<close>.
\<close>

theorem codec_round_trip:
  "c < 2 ^ 20 \<Longrightarrow>
     FramesToColumn level (ColumnToNormalFrameMask level c) =
       (if level = kLevel39 then c AND 0x55555 else c)"
  by (cases level) (simp_all add: roundtrip18 roundtrip19 roundtrip29 roundtrip39 
       del: FramesToColumn.simps ColumnToNormalFrameMask.simps)

theorem codec_round_trip_witness:
  "(0xABCDE :: Column) < 2 ^ 20 \<and>
   FramesToColumn kLevel18 (ColumnToNormalFrameMask kLevel18 0xABCDE) = 0xABCDE \<and>
   FramesToColumn kLevel39 (ColumnToNormalFrameMask kLevel39 0xABCDE) = 0x01454"
proof -
  have h: "(0xABCDE :: Column) < 2 ^ 20" by simp
  have "FramesToColumn kLevel18 (ColumnToNormalFrameMask kLevel18 0xABCDE) = 0xABCDE"
    "FramesToColumn kLevel39 (ColumnToNormalFrameMask kLevel39 0xABCDE) = 0xABCDE AND 0x55555"
    using codec_round_trip [OF h, of kLevel18] codec_round_trip [OF h, of kLevel39] 
    by (simp_all del: FramesToColumn.simps ColumnToNormalFrameMask.simps)
  then show ?thesis using h by simp
qed

text \<open>At level 39 the column with only row 1 set does not come back.\<close>

theorem codec_round_trip_L39_counterexample:
  "(2 :: Column) < 2 ^ 20 \<and> FramesToColumn kLevel39 (ColumnToNormalFrameMask kLevel39 2) \<noteq> 2"
  by code_simp


section \<open>Lock rows\<close>

lemma length_takeWhile_first:
  assumes "j < length xs" "\<And>i. i < j \<Longrightarrow> P (xs ! i)" "\<not> P (xs ! j)"
  shows "length (takeWhile P xs) = j"
proof -
  have "takeWhile P xs = take j xs"
    using assms by (intro takeWhile_eq_take_P_nth) auto
  then show ?thesis using assms(1) by simp
qed

lemma clz_highest:
  fixes x :: "'a::len word"
  assumes "bit x h" "\<And>i. h < i \<Longrightarrow> \<not> bit x i"
  shows "clz x = LENGTH('a) - 1 - h"
proof -
  have h: "h < LENGTH('a)" using assms(1) by (rule bit_imp_le_length)
  show ?thesis
    unfolding clz_def
  proof (rule length_takeWhile_first)
    show "LENGTH('a) - 1 - h < length (rev [0..<LENGTH('a)])" using h by simp
    show "\<not> \<not> bit x (rev [0..<LENGTH('a)] ! (LENGTH('a) - 1 - h))"
      using h assms(1) by (simp add: rev_nth)
    fix i assume "i < LENGTH('a) - 1 - h"
    then show "\<not> bit x (rev [0..<LENGTH('a)] ! i)"
      using h assms(2) [of "LENGTH('a) - 1 - i"] by (simp add: rev_nth)
  qed
qed

lemma ctz_lowest:
  fixes x :: "'a::len word"
  assumes "bit x l" "\<And>i. i < l \<Longrightarrow> \<not> bit x i"
  shows "ctz x = l"
proof -
  have l: "l < LENGTH('a)" using assms(1) by (rule bit_imp_le_length)
  show ?thesis
    unfolding ctz_def
    by (rule length_takeWhile_first) (use l assms in auto)
qed

lemma add_carry_run:
  fixes c :: "'a::len word"
  assumes sr: "s \<le> r" and r: "r + 1 < LENGTH('a)"
    and run: "\<And>i. s \<le> i \<Longrightarrow> i \<le> r \<Longrightarrow> bit c i" and stop: "\<not> bit c (r + 1)"
  shows "bit (c XOR (c + 2 ^ s)) n \<longleftrightarrow> s \<le> n \<and> n \<le> r + 1"
proof -
  define m :: "'a word" where "m = push_bit s (mask (r + 1 - s))"
  define p :: "'a word" where "p = 2 ^ (r + 1)"
  define c0 where "c0 = c AND NOT m"
  have bm: "bit m i \<longleftrightarrow> s \<le> i \<and> i \<le> r \<and> i < LENGTH('a)" for i
    using sr r by (auto simp: m_def bit_push_bit_iff bit_mask_iff)
  have bp: "bit p i \<longleftrightarrow> i = r + 1" for i
    unfolding p_def bit_exp_iff using r by (auto simp: possible_bit_word)
  have c: "c = c0 OR m"
    by (rule bit_word_eqI) (use run in \<open>auto simp: c0_def bit_or_iff bit_and_iff bit_not_iff bm\<close>)
  have "c0 AND m = 0"
    by (rule bit_word_eqI) (auto simp: c0_def bit_and_iff bit_not_iff)
  then have cm: "c0 + m = c" unfolding c by (rule disjunctive_add_eq_or)
  have "m + 2 ^ s = 2 ^ s * (mask (r + 1 - s) + 1)"
    by (simp add: m_def push_bit_eq_mult algebra_simps)
  also have "\<dots> = p"
    using sr by (simp add: mask_eq_exp_minus_1 p_def flip: power_add)
  finally have m1: "m + 2 ^ s = p" .
  have "c0 AND p = 0"
    by (rule bit_word_eqI) (use stop in \<open>auto simp: c0_def bit_and_iff bit_not_iff bp\<close>)
  then have "c0 + p = c0 OR p" by (rule disjunctive_add_eq_or)
  moreover have "c + 2 ^ s = c0 + p"
    using m1 cm by (simp add: add.assoc flip: cm)
  ultimately have d: "c + 2 ^ s = c0 OR p" by simp
  have "bit (c XOR (c + 2 ^ s)) n \<longleftrightarrow> bit ((c0 OR m) XOR (c0 OR p)) n"
    using c d by simp
  also have "\<dots> \<longleftrightarrow> s \<le> n \<and> n \<le> r + 1"
  proof -
    have "n \<le> r + 1 \<longleftrightarrow> n \<le> r \<or> n = r + 1" by auto
    then show ?thesis
      using r stop sr
      by (auto simp: bit_xor_iff bit_or_iff bm bp c0_def bit_and_iff bit_not_iff
          dest: bit_imp_le_length)
  qed
  finally show ?thesis .
qed

lemma FindLockRow_run:
  assumes "s \<le> r" "r < 31" "\<And>i. s \<le> i \<Longrightarrow> i \<le> r \<Longrightarrow> bit c i" "\<not> bit c (r + 1)"
  shows "FindLockRow c (int s) = int r"
proof -
  have b: "bit (c XOR (c + 2 ^ s)) n \<longleftrightarrow> s \<le> n \<and> n \<le> r + 1" for n
    using assms by (intro add_carry_run) auto
  have "clz (c XOR (c + 2 ^ s)) = LENGTH(32) - 1 - (r + 1)"
    by (rule clz_highest) (use b assms(1) in auto)
  then show ?thesis using assms(2) by (simp add: FindLockRow_def push_bit_of_1)
qed

lemma run_end_exists:
  fixes c :: Column
  assumes "bit c s"
  shows "\<exists>r. s \<le> r \<and> (\<forall>i. s \<le> i \<and> i \<le> r \<longrightarrow> bit c i) \<and> \<not> bit c (r + 1)"
proof -
  define r where "r = (LEAST j. s \<le> j \<and> \<not> bit c (j + 1))"
  have ex: "s \<le> s + 32 \<and> \<not> bit c (s + 32 + 1)"
    using bit_imp_le_length [of c "s + 32 + 1"] by auto
  have r: "s \<le> r \<and> \<not> bit c (r + 1)"
    unfolding r_def by (rule LeastI [where P = "\<lambda>j. s \<le> j \<and> \<not> bit c (j + 1)", OF ex])
  have least: "\<And>j. s \<le> j \<Longrightarrow> \<not> bit c (j + 1) \<Longrightarrow> r \<le> j"
    unfolding r_def by (rule Least_le) simp
  have "bit c i" if "s \<le> i" "i \<le> r" for i
  proof (cases "i = s")
    case True then show ?thesis using assms by simp
  next
    case False
    then have i: "s \<le> i - 1" "i - 1 + 1 = i" "i - 1 < r" using that by auto
    show ?thesis
    proof (rule ccontr)
      assume "\<not> bit c i"
      then have "r \<le> i - 1" using least [of "i - 1"] i by simp
      then show False using i by simp
    qed
  qed
  then show ?thesis using r by blast
qed

text \<open>
  C3 (as amended). In a column a set bit is a row the piece can be on. For every 20-bit
  column \<open>c\<close> and start row \<open>s < 20\<close> whose bit is set, \<open>FindLockRow c s\<close> is the last row of
  the run of set bits that starts at \<open>s\<close>: it is at least \<open>s\<close> and at most 19, every bit from
  \<open>s\<close> to it is set, and the bit after it is clear (bit 20, below the floor, always is).
\<close>

theorem FindLockRow_lock_row:
  fixes c :: Column
  assumes "c < 2 ^ 20" "s < 20" "bit c s"
  shows "int s \<le> FindLockRow c (int s) \<and> FindLockRow c (int s) \<le> 19 \<and>
     (\<forall>i. int s \<le> int i \<and> int i \<le> FindLockRow c (int s) \<longrightarrow> bit c i) \<and>
     \<not> bit c (nat (FindLockRow c (int s)) + 1)"
proof -
  obtain r where r: "s \<le> r" "\<And>i. s \<le> i \<Longrightarrow> i \<le> r \<Longrightarrow> bit c i" "\<not> bit c (r + 1)"
    using run_end_exists [OF assms(3)] by blast
  have "bit c r" using r by simp
  then have r19: "r < 20" using assms(1) by (rule bit_below [rotated])
  then have "FindLockRow c (int s) = int r"
    using r by (intro FindLockRow_run) auto
  then show ?thesis using r r19 by auto
qed

theorem FindLockRow_lock_row_witness:
  "(0x3C71D :: Column) < 2 ^ 20 \<and> (3 :: nat) < 20 \<and> bit (0x3C71D :: Column) 3 \<and>
   FindLockRow 0x3C71D 3 = 4 \<and> \<not> bit (0x3C71D :: Column) 5"
proof -
  have h: "(0x3C71D :: Column) < 2 ^ 20" "(3 :: nat) < 20" "bit (0x3C71D :: Column) 3"
    by simp_all
  have "FindLockRow 0x3C71D 3 = 4" by code_simp
  then show ?thesis using h FindLockRow_lock_row [OF h] by simp
qed

text \<open>
  With the reading of the claim (bit \<open>s\<close> clear, a set bit below): column \<open>0b100\<close> and start
  row 0 should give 1; the function returns \<open>-1\<close>.
\<close>

theorem FindLockRow_clear_start_counterexample:
  "\<not> bit (4 :: Column) 0 \<and> \<not> bit (4 :: Column) 1 \<and> bit (4 :: Column) 2 \<and>
   FindLockRow 4 0 = -1"
  by code_simp


section \<open>The cells of the generator\<close>

lemma fold_keyed_other:
  assumes step: "\<And>d g k. upd d g k = (if P d \<and> key d = k then F d (g k) else g k)"
    and "\<And>d. d \<in> set ds \<Longrightarrow> P d \<Longrightarrow> key d \<noteq> k"
  shows "fold upd ds g k = g k"
  using assms(2)
proof (induction ds arbitrary: g)
  case Nil
  then show ?case by simp
next
  case (Cons a ds)
  have "fold upd ds (upd a g) k = upd a g k" using Cons by simp
  also have "\<dots> = g k" using Cons.prems [of a] by (auto simp: step)
  finally show ?case by simp
qed

lemma fold_keyed_at:
  assumes step: "\<And>d g k. upd d g k = (if P d \<and> key d = k then F d (g k) else g k)"
    and "d \<in> set ds" "P d" "distinct ds"
    and "\<And>d'. d' \<in> set ds \<Longrightarrow> P d' \<Longrightarrow> key d' = key d \<Longrightarrow> d' = d"
  shows "fold upd ds g (key d) = F d (g (key d))"
  using assms(2-)
proof (induction ds arbitrary: g)
  case Nil
  then show ?case by simp
next
  case (Cons a ds)
  show ?case
  proof (cases "a = d")
    case True
    have "fold upd ds (upd a g) (key d) = upd a g (key d)"
    proof (rule fold_keyed_other [where upd = upd and P = P and key = key and F = F])
      show "\<And>d g k. upd d g k = (if P d \<and> key d = k then F d (g k) else g k)" by (rule step)
      fix d' assume "d' \<in> set ds" "P d'"
      then show "key d' \<noteq> key d" using Cons.prems True by auto
    qed
    moreover have "upd a g (key d) = F d (g (key d))"
      using True Cons.prems(2) step [of a g "key d"] by simp
    ultimately show ?thesis by simp
  next
    case False
    then have "d \<in> set ds" using Cons.prems by simp
    then have "fold upd ds (upd a g) (key d) = F d (upd a g (key d))"
      using Cons.prems by (intro Cons.IH) auto
    moreover have "upd a g (key d) = g (key d)"
      using False Cons.prems(4) [of a] by (auto simp: step)
    ultimately show ?thesis by simp
  qed
qed

lemma gen_step_key:
  "gen_step level R taps fr ir ic col d g k =
     (if valid_delta R d \<and> ((ir + d) mod R, col) = k
      then gen_cell level R taps fr ir ic col d (g k) else g k)"
  by (auto simp: gen_step_def valid_delta_def Let_def)

lemma less4: "r < (4::nat) \<longleftrightarrow> r = 0 \<or> r = 1 \<or> r = 2 \<or> r = 3" by auto

lemma less2: "r < (2::nat) \<longleftrightarrow> r = 0 \<or> r = 1" by auto

lemma delta_facts_4:
  assumes "ir < 4"
  shows "r < 4 \<Longrightarrow> delta_of 4 ir r < 4 \<and> valid_delta 4 (delta_of 4 ir r) \<and>
           (ir + delta_of 4 ir r) mod 4 = r"
    and "d < 4 \<Longrightarrow> (ir + d) mod 4 < 4 \<and> delta_of 4 ir ((ir + d) mod 4) = d"
  using assms unfolding less4 delta_of_def valid_delta_def by (elim disjE; simp)+

lemma delta_facts_2:
  assumes "ir < 2"
  shows "r < 2 \<Longrightarrow> delta_of 2 ir r < 4 \<and> valid_delta 2 (delta_of 2 ir r) \<and>
           (ir + delta_of 2 ir r) mod 2 = r"
    and "d < 2 \<Longrightarrow> (ir + d) mod 2 < 2 \<and> delta_of 2 ir ((ir + d) mod 2) = d"
  using assms unfolding less2 delta_of_def valid_delta_def by (elim disjE; simp)+

lemma delta_facts:
  assumes "R = 1 \<or> R = 2 \<or> R = 4" "ir < R"
  shows "r < R \<Longrightarrow> delta_of R ir r < 4 \<and> valid_delta R (delta_of R ir r) \<and>
           (ir + delta_of R ir r) mod R = r"
    and "d < 4 \<Longrightarrow> valid_delta R d \<Longrightarrow> (ir + d) mod R < R \<and> delta_of R ir ((ir + d) mod R) = d"
proof -
  consider "R = 1" "ir = 0" | "R = 2" "ir < 2" | "R = 4" "ir < 4" using assms by auto
  then show "r < R \<Longrightarrow> delta_of R ir r < 4 \<and> valid_delta R (delta_of R ir r) \<and>
           (ir + delta_of R ir r) mod R = r"
  proof cases
    case 1 then show "r < R \<Longrightarrow> ?thesis" by (simp add: delta_of_def valid_delta_def)
  next
    case 2 then show "r < R \<Longrightarrow> ?thesis" using delta_facts_2(1) by simp
  next
    case 3 then show "r < R \<Longrightarrow> ?thesis" using delta_facts_4(1) by simp
  qed
  consider "R = 1" "ir = 0" | "R = 2" "ir < 2" | "R = 4" "ir < 4" using assms by auto
  then show "d < 4 \<Longrightarrow> valid_delta R d \<Longrightarrow> (ir + d) mod R < R \<and> delta_of R ir ((ir + d) mod R) = d"
  proof cases
    case 1 then show "d < 4 \<Longrightarrow> valid_delta R d \<Longrightarrow> ?thesis" by (simp add: delta_of_def valid_delta_def)
  next
    case 2
    moreover have "valid_delta 2 d \<Longrightarrow> d < 2" by (simp add: valid_delta_def)
    ultimately show "d < 4 \<Longrightarrow> valid_delta R d \<Longrightarrow> ?thesis" using delta_facts_2(2) by simp
  next
    case 3 then show "d < 4 \<Longrightarrow> valid_delta R d \<Longrightarrow> ?thesis" using delta_facts_4(2) by simp
  qed
qed

lemma inner_fold:
  assumes R: "R = 1 \<or> R = 2 \<or> R = 4" and ir: "ir < R"
  shows "fold (gen_step level R taps fr ir ic col) [0..<4] g k =
     (if snd k = col \<and> fst k < R
      then gen_cell level R taps fr ir ic col (delta_of R ir (fst k)) (g k) else g k)"
proof (cases "snd k = col \<and> fst k < R")
  case True
  let ?d = "delta_of R ir (fst k)"
  have d: "?d < 4" "valid_delta R ?d" "(ir + ?d) mod R = fst k"
    using delta_facts(1) [OF R ir, of "fst k"] True by simp_all
  then have key: "((ir + ?d) mod R, col) = k" using True by (cases k) simp
  have "fold (gen_step level R taps fr ir ic col) [0..<4] g ((ir + ?d) mod R, col) =
      gen_cell level R taps fr ir ic col ?d (g ((ir + ?d) mod R, col))"
  proof (rule fold_keyed_at [where upd = "gen_step level R taps fr ir ic col"
        and P = "valid_delta R" and key = "\<lambda>d. ((ir + d) mod R, col)"
        and F = "gen_cell level R taps fr ir ic col" and d = ?d])
    show "\<And>d g k. gen_step level R taps fr ir ic col d g k =
       (if valid_delta R d \<and> ((ir + d) mod R, col) = k
        then gen_cell level R taps fr ir ic col d (g k) else g k)" by (rule gen_step_key)
    show "?d \<in> set [0..<4]" using d by simp
    show "valid_delta R ?d" using d by simp
    show "distinct [0..<4]" by simp
    fix d' assume "d' \<in> set [0..<4]" "valid_delta R d'"
      "((ir + d') mod R, col) = ((ir + ?d) mod R, col)"
    then show "d' = ?d"
      using delta_facts(2) [OF R ir, of d'] d by simp
  qed
  then show ?thesis using True key by simp
next
  case False
  have "fold (gen_step level R taps fr ir ic col) [0..<4] g k = g k"
  proof (rule fold_keyed_other [where upd = "gen_step level R taps fr ir ic col"
        and P = "valid_delta R" and key = "\<lambda>d. ((ir + d) mod R, col)"
        and F = "gen_cell level R taps fr ir ic col"])
    show "\<And>d g k. gen_step level R taps fr ir ic col d g k =
       (if valid_delta R d \<and> ((ir + d) mod R, col) = k
        then gen_cell level R taps fr ir ic col d (g k) else g k)" by (rule gen_step_key)
    fix d assume "d \<in> set [0..<4]" "valid_delta R d"
    then have "(ir + d) mod R < R" using delta_facts(2) [OF R ir, of d] by simp
    then show "((ir + d) mod R, col) \<noteq> k" using False by (cases k) auto
  qed
  then show ?thesis using False by auto
qed

lemma outer_fold:
  assumes R: "R = 1 \<or> R = 2 \<or> R = 4" and ir: "ir < R" and d: "distinct cs"
  shows "fold (\<lambda>col. fold (gen_step level R taps fr ir ic col) [0..<4]) cs g k =
     (if snd k \<in> set cs \<and> fst k < R
      then gen_cell level R taps fr ir ic (snd k) (delta_of R ir (fst k)) (g k) else g k)"
  using d
proof (induction cs arbitrary: g)
  case Nil
  then show ?case by simp
next
  case (Cons c cs)
  have "fold (\<lambda>col. fold (gen_step level R taps fr ir ic col) [0..<4]) (c # cs) g k =
     fold (\<lambda>col. fold (gen_step level R taps fr ir ic col) [0..<4]) cs
       (fold (gen_step level R taps fr ir ic c) [0..<4] g) k"
    by simp
  also have "\<dots> = (if snd k \<in> set cs \<and> fst k < R
      then gen_cell level R taps fr ir ic (snd k) (delta_of R ir (fst k))
             (fold (gen_step level R taps fr ir ic c) [0..<4] g k)
      else fold (gen_step level R taps fr ir ic c) [0..<4] g k)"
    using Cons by simp
  also have "\<dots> = (if snd k \<in> set (c # cs) \<and> fst k < R
      then gen_cell level R taps fr ir ic (snd k) (delta_of R ir (fst k)) (g k) else g k)"
    using Cons.prems unfolding inner_fold [OF R ir] by auto
  finally show ?case .
qed

lemma gen_cells_at:
  assumes "R = 1 \<or> R = 2 \<or> R = 4" "ir < R" "rot < R" "col < 10"
  shows "gen_cells level R taps fr ir ic (rot, col) =
     gen_cell level R taps fr ir ic col (delta_of R ir rot) (empty_cell R)"
  unfolding gen_cells_def using assms by (simp add: outer_fold)


lemma bit_Board_Set:
  "bit (Board_Set b row col) n \<longleftrightarrow>
     bit b n \<or> (0 \<le> row \<and> row < 20 \<and> 0 \<le> col \<and> col < 10 \<and> n = nat col * 20 + nat row)"
proof -
  have "0 \<le> row \<Longrightarrow> row < 20 \<Longrightarrow> 0 \<le> col \<Longrightarrow> col < 10 \<Longrightarrow> nat col * 20 + nat row < 200"
    by linarith
  then show ?thesis
    by (auto simp: Board_Set_def bit_or_iff bit_push_bit_iff bit_1_iff simp del: push_bit_of_1)
qed

lemma bit_Board_Column:
  "col < 10 \<Longrightarrow> bit (Board_Column b col) n \<longleftrightarrow> n < 20 \<and> bit b (col * 20 + n)"
  by (auto simp: Board_Column_def bit_take_bit_iff bit_ucast_iff bit_drop_bit_eq)

lemma Board_Column_less: "Board_Column b col < 2 ^ 20"
proof -
  have "Board_Column b col = take_bit 20 (Board_Column b col)"
    by (simp add: Board_Column_def)
  also have "\<dots> = Board_Column b col AND mask 20" by (simp add: take_bit_eq_mask)
  also have "\<dots> < 2 ^ 20" by (rule and_mask_less') simp
  finally show ?thesis .
qed

lemma Contains_iff:
  "Contains R board msk \<longleftrightarrow> (\<forall>i<R. (board ! i) AND (msk ! i) = msk ! i)"
proof -
  have "fold (\<lambda>i ret. ret \<and> P i) xs a \<longleftrightarrow> a \<and> (\<forall>i\<in>set xs. P i)" for xs a and P :: "nat \<Rightarrow> bool"
    by (induction xs arbitrary: a) auto
  then show ?thesis by (auto simp: Contains_def)
qed

lemma Contains_bit:
  assumes "Contains R board msk" "i < R" "bit (msk ! i) n"
  shows "bit (board ! i) n"
proof -
  have "(board ! i) AND (msk ! i) = msk ! i" using assms by (simp add: Contains_iff)
  then have "bit ((board ! i) AND (msk ! i)) n" using assms(3) by simp
  then show ?thesis by (simp add: bit_and_iff)
qed
lemma stamp_frame_keeps:
  "length (stamp_frame level rot col f cur) = length cur \<and>
   (bit (cur ! i) n \<longrightarrow> bit (stamp_frame level rot col f cur ! i) n)"
proof (cases "rot < length cur")
  case True
  then show ?thesis
    by (cases "i = rot") (auto simp: stamp_frame_def Let_def bit_Board_Set)
next
  case False
  then have "cur[rot := x] = cur" for x by (intro list_update_beyond) (simp add: not_less)
  then show ?thesis by (simp add: stamp_frame_def Let_def)
qed

lemma stamp_frames_keep:
  "length (fold (stamp_frame level rot col) fs cur) = length cur \<and>
   (bit (cur ! i) n \<longrightarrow> bit (fold (stamp_frame level rot col) fs cur ! i) n)"
proof (induction fs arbitrary: cur)
  case Nil
  then show ?case by simp
next
  case (Cons f fs)
  show ?case
    using Cons [of "stamp_frame level rot col f cur"] stamp_frame_keeps [of level rot col f cur i n]
    by simp
qed

lemma start_masks_props:
  "length (start_masks start_rot rot row start_col col cur) = length cur"
  "rot < length cur \<Longrightarrow> 0 \<le> row \<Longrightarrow> row < 20 \<Longrightarrow> col < 10 \<Longrightarrow>
     bit (start_masks start_rot rot row start_col col cur ! rot) (col * 20 + nat row)"
  by (simp_all add: start_masks_def Let_def bit_Board_Set)

lemma gen_cell_unfold:
  "gen_cell level R taps fr ir ic col d c =
     gen_cell_body level R ir ic col d ((ir + d) mod R)
       (max (num_ab d) (num_lr ic col)) (num_lr ic col) (num_ab d)
       (tap_frame taps fr (max (num_ab d) (num_lr ic col)))
       (taps ! (max (num_ab d) (num_lr ic col)) + fr) c"
  unfolding gen_cell_def Let_def num_ab_def num_lr_def tap_frame_def ..

lemma body_last_tap:
  "c_last_tap (gen_cell_body level R ir ic col d rot n nlr nab sf ef c) =
     mark_last_tap ic col d n nlr nab (c_last_tap c)"
  by (simp add: gen_cell_body_def Let_def)

lemma body_cannot_reach:
  "c_cannot_reach (gen_cell_body level R ir ic col d rot n nlr nab sf ef c) \<longleftrightarrow>
     c_cannot_reach c \<or> 20 \<le> GetRow sf level"
  by (simp add: gen_cell_body_def Let_def)

lemma body_masks:
  assumes "\<not> 20 \<le> GetRow sf level"
  shows "\<exists>sr sc. c_masks_nodrop (gen_cell_body level R ir ic col d rot n nlr nab sf ef c) =
           start_masks sr rot (GetRow sf level) sc col (c_masks c)"
    and "c_masks (gen_cell_body level R ir ic col d rot n nlr nab sf ef c) =
           c_masks_nodrop (gen_cell_body level R ir ic col d rot n nlr nab sf ef c) \<or>
         (\<exists>fs. c_masks (gen_cell_body level R ir ic col d rot n nlr nab sf ef c) =
           fold (stamp_frame level rot col) fs
             (c_masks_nodrop (gen_cell_body level R ir ic col d rot n nlr nab sf ef c)))"
  using assms by (auto simp: gen_cell_body_def Let_def)

lemma mark_last_tap_flags:
  "mark_last_tap ic col d n nlr nab 0 AND kL \<noteq> 0 \<longleftrightarrow> n \<noteq> 0 \<and> n = nlr \<and> \<not> col > ic"
  "mark_last_tap ic col d n nlr nab 0 AND kR \<noteq> 0 \<longleftrightarrow> n \<noteq> 0 \<and> n = nlr \<and> col > ic"
  "mark_last_tap ic col d n nlr nab 0 AND kA \<noteq> 0 \<longleftrightarrow> n \<noteq> 0 \<and> n = nab \<and> d \<noteq> 3"
  unfolding mark_last_tap_def Let_def kA_def kB_def kL_def kR_def by auto

lemma gen_cell_flags:
  fixes level R taps fr ir ic col d
  defines "cell \<equiv> gen_cell level R taps fr ir ic col d (empty_cell R)"
    and "n \<equiv> max (num_ab d) (num_lr ic col)"
  shows "c_last_tap cell AND kL \<noteq> 0 \<longleftrightarrow> n \<noteq> 0 \<and> n = num_lr ic col \<and> \<not> col > ic"
    and "c_last_tap cell AND kR \<noteq> 0 \<longleftrightarrow> n \<noteq> 0 \<and> n = num_lr ic col \<and> col > ic"
    and "c_last_tap cell AND kA \<noteq> 0 \<longleftrightarrow> n \<noteq> 0 \<and> n = num_ab d \<and> d \<noteq> 3"
proof -
  have "c_last_tap (empty_cell R) = 0" by (simp add: empty_cell_def)
  then have "c_last_tap cell = mark_last_tap ic col d n (num_lr ic col) (num_ab d) 0"
    unfolding cell_def n_def gen_cell_unfold body_last_tap by simp
  then show "c_last_tap cell AND kL \<noteq> 0 \<longleftrightarrow> n \<noteq> 0 \<and> n = num_lr ic col \<and> \<not> col > ic"
    and "c_last_tap cell AND kR \<noteq> 0 \<longleftrightarrow> n \<noteq> 0 \<and> n = num_lr ic col \<and> col > ic"
    and "c_last_tap cell AND kA \<noteq> 0 \<longleftrightarrow> n \<noteq> 0 \<and> n = num_ab d \<and> d \<noteq> 3"
    by (simp_all only: mark_last_tap_flags)
qed

lemma gen_cell_cannot_reach:
  "c_cannot_reach (gen_cell level R taps fr ir ic col d (empty_cell R)) \<longleftrightarrow>
     GetRow (tap_frame taps fr (max (num_ab d) (num_lr ic col))) level \<ge> 20"
  unfolding gen_cell_unfold body_cannot_reach by (simp add: empty_cell_def)

lemma gen_cell_masks:
  fixes level R taps fr ir ic col d
  defines "cell \<equiv> gen_cell level R taps fr ir ic col d (empty_cell R)"
    and "row \<equiv> GetRow (tap_frame taps fr (max (num_ab d) (num_lr ic col))) level"
  assumes "\<not> c_cannot_reach cell" "0 \<le> row" "col < 10" "(ir + d) mod R < R"
  shows "length (c_masks cell) = R" "length (c_masks_nodrop cell) = R"
    "bit (c_masks_nodrop cell ! ((ir + d) mod R)) (col * 20 + nat row)"
    "bit (c_masks_nodrop cell ! i) n \<Longrightarrow> bit (c_masks cell ! i) n"
proof -
  have row20: "\<not> 20 \<le> row"
    using assms(3) unfolding cell_def row_def gen_cell_cannot_reach by simp
  have e: "c_masks (empty_cell R) = replicate R Board_zero" by (simp add: empty_cell_def)
  obtain sr sc where nod: "c_masks_nodrop cell =
      start_masks sr ((ir + d) mod R) row sc col (replicate R Board_zero)"
    using body_masks(1) [OF row20 [unfolded row_def]] e
    unfolding cell_def gen_cell_unfold row_def by metis
  have m: "c_masks cell = c_masks_nodrop cell \<or>
      (\<exists>fs. c_masks cell = fold (stamp_frame level ((ir + d) mod R) col) fs (c_masks_nodrop cell))"
    using body_masks(2) [OF row20 [unfolded row_def]]
    unfolding cell_def gen_cell_unfold row_def by blast
  show l: "length (c_masks_nodrop cell) = R" by (simp add: nod start_masks_props)
  show "length (c_masks cell) = R" using m l stamp_frames_keep by auto
  show "bit (c_masks_nodrop cell ! ((ir + d) mod R)) (col * 20 + nat row)"
    unfolding nod using row20 assms(4,5,6) by (intro start_masks_props) simp_all
  show "bit (c_masks_nodrop cell ! i) n \<Longrightarrow> bit (c_masks cell ! i) n"
    using m stamp_frames_keep by auto
qed


section \<open>The positions pushed from an entry\<close>

lemma shift_left:
  assumes "col < 10" "ic < 10" "0 < col"
    and "nt_d ic (d, col) = 0 \<or> (nt_d ic (d, col) = num_lr ic col \<and> \<not> col > ic)"
  shows "num_lr ic (col - 1) = nt_d ic (d, col) + 1"
    and "nat (int (col - 1) - sgn (int (col - 1) - int ic)) = col"
    and "num_lr ic col = nt_d ic (d, col)"
  using assms by (auto simp: nt_d_def num_lr_def sgn_if max_def split: if_splits)

lemma shift_right:
  assumes "col < 10" "ic < 10" "col < 9"
    and "nt_d ic (d, col) = 0 \<or> (nt_d ic (d, col) = num_lr ic col \<and> col > ic)"
  shows "num_lr ic (col + 1) = nt_d ic (d, col) + 1"
    and "nat (int (col + 1) - sgn (int (col + 1) - int ic)) = col"
    and "num_lr ic col = nt_d ic (d, col)"
  using assms by (auto simp: nt_d_def num_lr_def sgn_if max_def split: if_splits)

lemma no_shift: "num_lr ic col \<le> nt_d ic (d, col)" "num_ab d \<le> nt_d ic (d, col)"
  by (simp_all add: nt_d_def)

lemma num_ab_zero: "num_ab d = 0 \<longleftrightarrow> d = 0"
  by (simp add: num_ab_def)

lemma rotate_a:
  assumes "d < R" "R = 1 \<or> R = 2 \<or> R = 4"
    and "(R > 1 \<and> nt_d ic (d, col) = 0) \<or>
         (R = 4 \<and> nt_d ic (d, col) = 1 \<and> nt_d ic (d, col) = num_ab d \<and> d \<noteq> 3)"
  shows "num_ab ((d + 1) mod R) = nt_d ic (d, col) + 1"
    and "(if (d + 1) mod R = 2 then 1 else 0) = d"
    and "(d + 1) mod R < R"
    and "(d + 1) mod R \<noteq> d"
proof -
  have "(R = 2 \<or> R = 4) \<and> nt_d ic (d, col) = 0 \<and> d = 0 \<or>
        R = 4 \<and> nt_d ic (d, col) = 1 \<and> d = 1"
    using assms(3)
  proof (elim disjE conjE)
    assume a: "R > 1" "nt_d ic (d, col) = 0"
    then have "num_ab d = 0" using no_shift(2) [of d ic col] by simp
    then have "d = 0" by (simp add: num_ab_zero)
    moreover have "R = 2 \<or> R = 4" using a assms(2) by auto
    ultimately show ?thesis using a by simp
  next
    assume a: "R = 4" "nt_d ic (d, col) = 1" "nt_d ic (d, col) = num_ab d" "d \<noteq> 3"
    then have "d = 1" by (auto simp: num_ab_def split: if_splits)
    then show ?thesis using a by simp
  qed
  then consider (root) "R = 2 \<or> R = 4" "nt_d ic (d, col) = 0" "d = 0"
    | (second) "R = 4" "nt_d ic (d, col) = 1" "d = 1"
    by auto
  then have "num_ab ((d + 1) mod R) = nt_d ic (d, col) + 1 \<and>
      (if (d + 1) mod R = 2 then 1 else 0) = d \<and> (d + 1) mod R < R \<and> (d + 1) mod R \<noteq> d"
  proof cases
    case root
    then show ?thesis by (auto simp: num_ab_def)
  next
    case second
    then show ?thesis by (simp add: num_ab_def)
  qed
  then show "num_ab ((d + 1) mod R) = nt_d ic (d, col) + 1"
    and "(if (d + 1) mod R = 2 then 1 else 0) = d"
    and "(d + 1) mod R < R"
    and "(d + 1) mod R \<noteq> d" by simp_all
qed

lemma rotate_b:
  assumes "d < R" "R = 4" "nt_d ic (d, col) = 0"
  shows "num_ab ((d + 3) mod R) = nt_d ic (d, col) + 1"
    and "(if (d + 3) mod R = 2 then 1 else 0) = d"
    and "(d + 3) mod R < R"
    and "(d + 3) mod R \<noteq> d" "(d + 3) mod R \<noteq> (d + 1) mod R"
proof -
  have "num_ab d = 0" using no_shift(2) [of d ic col] assms(3) by simp
  then have "d = 0" by (simp add: num_ab_zero)
  then show "num_ab ((d + 3) mod R) = nt_d ic (d, col) + 1"
    and "(if (d + 3) mod R = 2 then 1 else 0) = d"
    and "(d + 3) mod R < R"
    and "(d + 3) mod R \<noteq> d" "(d + 3) mod R \<noteq> (d + 1) mod R"
    using assms by (simp_all add: num_ab_def)
qed

lemma child_generic:
  assumes n: "nt_d ic (d, col) = n" and "d' < R" "col' < 10"
    and ab: "(num_ab d' = n + 1 \<and> (if d' = 2 then 1 else 0) = d) \<or> (d' = d \<and> num_ab d \<le> n)"
    and lr: "(num_lr ic col' = n + 1 \<and> nat (int col' - sgn (int col' - int ic)) = col) \<or>
             (col' = col \<and> num_lr ic col \<le> n)"
    and some: "num_ab d' = n + 1 \<or> num_lr ic col' = n + 1"
  shows "child_d R ic (d, col) (d', col')"
proof -
  have "max (num_ab d') (num_lr ic col') = n + 1"
    using ab lr some by (auto simp: max_def)
  moreover have "(if n + 1 = num_ab d' then (if d' = 2 then 1 else 0) else d') = d"
    using ab by auto
  moreover have "(if n + 1 = num_lr ic col'
       then nat (int col' - sgn (int col' - int ic)) else col') = col"
    using lr by auto
  ultimately have "nt_d ic (d', col') = n + 1" "before_d ic (d', col') = (d, col)"
    by (simp_all add: nt_d_def before_d_def)
  then show ?thesis using assms(2,3) n by (simp add: child_d_def)
qed

lemma cands_d_children:
  assumes R: "R = 1 \<or> R = 2 \<or> R = 4" and d: "d < R" and col: "col < 10" and ic: "ic < 10"
    and q: "q \<in> set (cands_d R ic (d, col))"
  shows "child_d R ic (d, col) q"
proof -
  define n where "n = nt_d ic (d, col)"
  define sl where "sl \<longleftrightarrow> col > 0 \<and> (n = 0 \<or> (n \<noteq> 0 \<and> n = num_lr ic col \<and> \<not> col > ic))"
  define sr where "sr \<longleftrightarrow> col < 9 \<and> (n = 0 \<or> (n \<noteq> 0 \<and> n = num_lr ic col \<and> col > ic))"
  define sa where "sa \<longleftrightarrow> (R > 1 \<and> n = 0) \<or> (R = 4 \<and> n = 1 \<and> (n \<noteq> 0 \<and> n = num_ab d \<and> d \<noteq> 3))"
  define sb where "sb \<longleftrightarrow> R = 4 \<and> n = 0"
  have nn: "nt_d ic (d, col) = n" by (simp add: n_def)
  have keep_ab: "num_ab d \<le> n" and keep_lr: "num_lr ic col \<le> n"
    using no_shift(1) [of ic col d] no_shift(2) [of d ic col] by (simp_all add: n_def)
  have L: "num_lr ic (col - 1) = n + 1 \<and> nat (int (col - 1) - sgn (int (col - 1) - int ic)) = col
      \<and> col - 1 < 10" if sl
    using shift_left(1,2) [of col ic d] that col ic unfolding sl_def n_def by auto
  have Rt: "num_lr ic (col + 1) = n + 1 \<and> nat (int (col + 1) - sgn (int (col + 1) - int ic)) = col
      \<and> col + 1 < 10" if sr
    using shift_right(1,2) [of col ic d] that col ic unfolding sr_def n_def by auto
  have A: "num_ab ((d + 1) mod R) = n + 1 \<and> (if (d + 1) mod R = 2 then 1 else 0) = d \<and>
      (d + 1) mod R < R" if sa
    using rotate_a(1,2,3) [of d R ic col] that d R unfolding sa_def n_def by auto
  have B: "num_ab ((d + 3) mod R) = n + 1 \<and> (if (d + 3) mod R = 2 then 1 else 0) = d \<and>
      (d + 3) mod R < R" if sb
    using rotate_b(1,2,3) [of d R ic col] that d unfolding sb_def n_def by auto
  have "q \<in> set ((if sl then [(d, col - 1)] else []) @
         (if sr then [(d, col + 1)] else []) @
         (if sa then [((d + 1) mod R, col)] else []) @
         (if sa \<and> sl then [((d + 1) mod R, col - 1)] else []) @
         (if sa \<and> sr then [((d + 1) mod R, col + 1)] else []) @
         (if sb then [((d + 3) mod R, col)] else []) @
         (if sb \<and> sl then [((d + 3) mod R, col - 1)] else []) @
         (if sb \<and> sr then [((d + 3) mod R, col + 1)] else []))"
    using q unfolding cands_d_def candidates_def Let_def sl_def sr_def sa_def sb_def n_def
    by simp
  then consider "sl" "q = (d, col - 1)" | "sr" "q = (d, col + 1)"
    | "sa" "q = ((d + 1) mod R, col)" | "sa" "sl" "q = ((d + 1) mod R, col - 1)"
    | "sa" "sr" "q = ((d + 1) mod R, col + 1)"
    | "sb" "q = ((d + 3) mod R, col)" | "sb" "sl" "q = ((d + 3) mod R, col - 1)"
    | "sb" "sr" "q = ((d + 3) mod R, col + 1)"
    by (auto split: if_splits)
  then show ?thesis
  proof cases
    case 1
    have "child_d R ic (d, col) (d, col - 1)"
      using L [OF 1(1)] d keep_ab by (intro child_generic [OF nn]) auto
    then show ?thesis using 1 by simp
  next
    case 2
    have "child_d R ic (d, col) (d, col + 1)"
      using Rt [OF 2(1)] d keep_ab by (intro child_generic [OF nn]) auto
    then show ?thesis using 2 by simp
  next
    case 3
    have "child_d R ic (d, col) ((d + 1) mod R, col)"
      using A [OF 3(1)] col keep_lr by (intro child_generic [OF nn]) auto
    then show ?thesis using 3 by simp
  next
    case 4
    have "child_d R ic (d, col) ((d + 1) mod R, col - 1)"
      using A [OF 4(1)] L [OF 4(2)] by (intro child_generic [OF nn]) auto
    then show ?thesis using 4 by simp
  next
    case 5
    have "child_d R ic (d, col) ((d + 1) mod R, col + 1)"
      using A [OF 5(1)] Rt [OF 5(2)] by (intro child_generic [OF nn]) auto
    then show ?thesis using 5 by simp
  next
    case 6
    have "child_d R ic (d, col) ((d + 3) mod R, col)"
      using B [OF 6(1)] col keep_lr by (intro child_generic [OF nn]) auto
    then show ?thesis using 6 by simp
  next
    case 7
    have "child_d R ic (d, col) ((d + 3) mod R, col - 1)"
      using B [OF 7(1)] L [OF 7(2)] by (intro child_generic [OF nn]) auto
    then show ?thesis using 7 by simp
  next
    case 8
    have "child_d R ic (d, col) ((d + 3) mod R, col + 1)"
      using B [OF 8(1)] Rt [OF 8(2)] by (intro child_generic [OF nn]) auto
    then show ?thesis using 8 by simp
  qed
qed

lemma cands_d_distinct:
  assumes R: "R = 1 \<or> R = 2 \<or> R = 4" and d: "d < R"
  shows "distinct (cands_d R ic (d, col))"
proof -
  define n where "n = nt_d ic (d, col)"
  define sl where "sl \<longleftrightarrow> col > 0 \<and> (n = 0 \<or> (n \<noteq> 0 \<and> n = num_lr ic col \<and> \<not> col > ic))"
  define sr where "sr \<longleftrightarrow> col < 9 \<and> (n = 0 \<or> (n \<noteq> 0 \<and> n = num_lr ic col \<and> col > ic))"
  define sa where "sa \<longleftrightarrow> (R > 1 \<and> n = 0) \<or> (R = 4 \<and> n = 1 \<and> (n \<noteq> 0 \<and> n = num_ab d \<and> d \<noteq> 3))"
  define sb where "sb \<longleftrightarrow> R = 4 \<and> n = 0"
  define da where "da = (d + 1) mod R"
  define db where "db = (d + 3) mod R"
  have L: "col - 1 \<noteq> col" "col - 1 \<noteq> col + 1" if sl using that by (auto simp: sl_def)
  have A: "da \<noteq> d" if sa
    using rotate_a(4) [of d R ic col] that d R unfolding sa_def n_def da_def by auto
  have B: "db \<noteq> d" "db \<noteq> da" if sb
    using rotate_b(4,5) [of d R ic col] that d unfolding sb_def n_def da_def db_def by auto
  have "cands_d R ic (d, col) =
         (if sl then [(d, col - 1)] else []) @
         (if sr then [(d, col + 1)] else []) @
         (if sa then [(da, col)] else []) @
         (if sa \<and> sl then [(da, col - 1)] else []) @
         (if sa \<and> sr then [(da, col + 1)] else []) @
         (if sb then [(db, col)] else []) @
         (if sb \<and> sl then [(db, col - 1)] else []) @
         (if sb \<and> sr then [(db, col + 1)] else [])"
    unfolding cands_d_def candidates_def Let_def sl_def sr_def sa_def sb_def n_def da_def db_def
    by simp
  then show ?thesis using L A B by (cases sl; cases sr; cases sa; cases sb) auto
qed

lemma mod_shift:
  fixes R :: nat
  shows "((ir + d) mod R + k) mod R = (ir + (d + k) mod R) mod R"
proof -
  have "((ir + d) mod R + k) mod R = (ir + d + k) mod R" by (rule mod_add_left_eq)
  moreover have "(ir + (d + k) mod R) mod R = (ir + (d + k)) mod R" by (rule mod_add_right_eq)
  ultimately show ?thesis by (simp add: add.assoc)
qed

lemma num_tap_of_delta:
  "num_tap_of R ir ic (rot, col) = nt_d ic (delta_of R ir rot, col)"
  by (simp add: num_tap_of_def nt_d_def)

lemma before_tap_delta:
  assumes "delta_of R ir rot = d"
  shows "before_tap R ir ic (rot, col) =
     ((if nt_d ic (d, col) = num_ab d then ((if d = 2 then 1 else 0) + ir) mod R else rot),
      snd (before_d ic (d, col)))"
  unfolding before_tap_def before_d_def num_tap_of_def nt_d_def Let_def prod.case assms snd_conv
  by (rule refl)

lemma candidates_list:
  "candidates R rot col t fl fr fa =
     (let sl = (col > 0 \<and> (t = 0 \<or> fl)); sr = (col < 9 \<and> (t = 0 \<or> fr));
          sa = ((R > 1 \<and> t = 0) \<or> (R = 4 \<and> t = 1 \<and> fa)); sb = (R = 4 \<and> t = 0)
      in concat
         [if sl then [(rot, col - 1)] else [],
          if sr then [(rot, col + 1)] else [],
          if sa then [((rot + 1) mod R, col)] else [],
          if sa \<and> sl then [((rot + 1) mod R, col - 1)] else [],
          if sa \<and> sr then [((rot + 1) mod R, col + 1)] else [],
          if sb then [((rot + 3) mod R, col)] else [],
          if sb \<and> sl then [((rot + 3) mod R, col - 1)] else [],
          if sb \<and> sr then [((rot + 3) mod R, col + 1)] else []])"
  unfolding candidates_def Let_def concat.simps append_Nil2 ..

lemma map_opt: "map f (if b then [x] else []) = (if b then [f x] else [])"
  by simp

lemma candidates_map:
  "candidates R ((ir + d) mod R) col t fl fr fa =
     map (\<lambda>q. ((ir + fst q) mod R, snd q)) (candidates R d col t fl fr fa)"
proof -
  have a: "((ir + d) mod R + 1) mod R = (ir + (d + 1) mod R) mod R"
    and b: "((ir + d) mod R + 3) mod R = (ir + (d + 3) mod R) mod R"
    by (rule mod_shift)+
  show ?thesis
    unfolding candidates_list Let_def a b map_concat list.map map_opt fst_conv snd_conv ..
qed

lemma children_map:
  assumes R: "R = 1 \<or> R = 2 \<or> R = 4" and ir: "ir < R" and rot: "rot < R"
  shows "children R ir ic (rot, col) =
     map (\<lambda>q. ((ir + fst q) mod R, snd q)) (cands_d R ic (delta_of R ir rot, col))"
proof -
  have "0 < R" using R by auto
  moreover have "(ir + delta_of R ir rot) mod R = rot"
    using delta_facts(1) [OF R ir rot] by simp
  ultimately show ?thesis
    using candidates_map [of R ir "delta_of R ir rot" col]
    by (simp add: children_def cands_d_def flag_l_def flag_r_def flag_a_def num_tap_of_delta)
qed

lemma delta_inverse:
  assumes R: "R = 1 \<or> R = 2 \<or> R = 4" and ir: "ir < R" and d: "d < R"
  shows "(ir + d) mod R < R" "delta_of R ir ((ir + d) mod R) = d"
proof -
  have "d < 4" "valid_delta R d" using R d by (auto simp: valid_delta_def)
  then show "(ir + d) mod R < R" "delta_of R ir ((ir + d) mod R) = d"
    using delta_facts(2) [OF R ir, of d] by simp_all
qed

lemma children_ok:
  assumes R: "R = 1 \<or> R = 2 \<or> R = 4" and ir: "ir < R" and rot: "rot < R"
    and col: "col < 10" and ic: "ic < 10"
    and q: "q \<in> set (children R ir ic (rot, col))"
  shows "child_ok R ir ic (rot, col) q"
proof -
  define d where "d = delta_of R ir rot"
  have d: "d < R" "(ir + d) mod R = rot"
    using delta_facts(1) [OF R ir rot] R unfolding d_def
    by (auto simp: delta_of_def)
  obtain q' where q': "q' \<in> set (cands_d R ic (d, col))" "q = ((ir + fst q') mod R, snd q')"
    using q unfolding children_map [OF R ir rot] d_def by auto
  have c: "child_d R ic (d, col) q'"
    using cands_d_children [OF R d(1) col ic q'(1)] .
  obtain d' c' where dc: "q' = (d', c')" by (cases q')
  have c': "d' < R" "c' < 10" "nt_d ic (d', c') = nt_d ic (d, col) + 1"
    "before_d ic (d', c') = (d, col)"
    using c unfolding child_d_def dc by simp_all
  have inv: "(ir + d') mod R < R" "delta_of R ir ((ir + d') mod R) = d'"
    using delta_inverse [OF R ir c'(1)] .
  have nt: "num_tap_of R ir ic q = num_tap_of R ir ic (rot, col) + 1"
    unfolding q'(2) dc fst_conv snd_conv num_tap_of_delta inv(2) d_def [symmetric]
    using c'(3) .
  have bd: "fst (before_d ic (d', c')) = d" "snd (before_d ic (d', c')) = col"
    using c'(4) by simp_all
  have bt: "before_tap R ir ic ((ir + d') mod R, c') = (rot, col)"
  proof (cases "nt_d ic (d', c') = num_ab d'")
    case True
    then have "(if d' = 2 then 1 else 0) = d" using bd(1) by (simp add: before_d_def)
    then have "((if d' = 2 then 1 else 0) + ir) mod R = rot"
      using d(2) by (simp add: add.commute)
    then show ?thesis
      unfolding before_tap_delta [OF inv(2)] using True bd(2) by simp
  next
    case False
    then have "d' = d" using bd(1) by (simp add: before_d_def)
    then show ?thesis
      unfolding before_tap_delta [OF inv(2)] using False bd(2) d(2) by simp
  qed
  show ?thesis
    unfolding child_ok_def using inv(1) c'(2) nt bt by (simp add: q'(2) dc)
qed

lemma children_distinct:
  assumes R: "R = 1 \<or> R = 2 \<or> R = 4" and ir: "ir < R" and rot: "rot < R"
    and col: "col < 10" and ic: "ic < 10"
  shows "distinct (children R ir ic (rot, col))"
proof -
  define d where "d = delta_of R ir rot"
  have d: "d < R" using delta_facts(1) [OF R ir rot] R unfolding d_def by (auto simp: delta_of_def)
  have "inj_on (\<lambda>q. ((ir + fst q) mod R, snd q)) (set (cands_d R ic (d, col)))"
  proof (rule inj_onI)
    fix x y assume x: "x \<in> set (cands_d R ic (d, col))" and y: "y \<in> set (cands_d R ic (d, col))"
      and e: "((ir + fst x) mod R, snd x) = ((ir + fst y) mod R, snd y)"
    have "fst x < R" "fst y < R"
      using cands_d_children [OF R d col ic x] cands_d_children [OF R d col ic y]
      by (simp_all add: child_d_def)
    then have a: "delta_of R ir ((ir + fst x) mod R) = fst x"
      "delta_of R ir ((ir + fst y) mod R) = fst y"
      using delta_inverse(2) [OF R ir] by blast+
    have "(ir + fst x) mod R = (ir + fst y) mod R" "snd x = snd y" using e by blast+
    then have "fst x = fst y" "snd x = snd y" using a by (metis, blast)
    then show "x = y" by (rule prod_eqI)
  qed
  moreover have "distinct (cands_d R ic (d, col))" using cands_d_distinct [OF R d] .
  ultimately have "distinct (map (\<lambda>q. ((ir + fst q) mod R, snd q)) (cands_d R ic (d, col)))"
    unfolding distinct_map by blast
  then show ?thesis
    unfolding children_map [OF R ir rot] d_def [symmetric] .
qed


section \<open>The table generator\<close>

lemma gen_cells_ok:
  assumes R: "R = 1 \<or> R = 2 \<or> R = 4" and ir: "ir < R"
  shows "cells_ok R ir ic (gen_cells level R taps fr ir ic)"
  unfolding cells_ok_def
proof (intro allI impI)
  fix rot col :: nat assume a: "rot < R \<and> col < 10"
  show "(c_last_tap (gen_cells level R taps fr ir ic (rot, col)) AND kL \<noteq> 0 \<longleftrightarrow>
            flag_l R ir ic (rot, col)) \<and>
        (c_last_tap (gen_cells level R taps fr ir ic (rot, col)) AND kR \<noteq> 0 \<longleftrightarrow>
            flag_r R ir ic (rot, col)) \<and>
        (c_last_tap (gen_cells level R taps fr ir ic (rot, col)) AND kA \<noteq> 0 \<longleftrightarrow>
            flag_a R ir ic (rot, col))"
    unfolding gen_cells_at [OF R ir conjunct1 [OF a] conjunct2 [OF a]] gen_cell_flags
      flag_l_def flag_r_def flag_a_def num_tap_of_def
    by simp
qed

lemma Push_in_range:
  assumes "rot < 256" "col < 256" "prev < 256" "n < 256"
  shows "Push R g cap rot col prev n es =
     (if c_cannot_reach (g (rot, col)) then Some es
      else if length es < cap then Some (es @ [make_entry R g prev n (rot, col)]) else None)"
  using assms by (simp add: Push_def make_entry_def Let_def)

lemma push_all_None: "fold (\<lambda>q r. Option.bind r (f q)) cs None = None"
  by (induction cs) simp_all

lemma push_all_Cons:
  "push_all R g cap prev n (q # cs) es =
     Option.bind (Push R g cap (fst q) (snd q) prev n es) (push_all R g cap prev n cs)"
proof (cases "Push R g cap (fst q) (snd q) prev n es")
  case None
  then show ?thesis by (simp add: push_all_def push_all_None)
next
  case (Some a)
  then show ?thesis by (simp add: push_all_def)
qed

lemma push_all_Nil: "push_all R g cap prev n [] es = Some es"
  by (simp add: push_all_def)

lemma push_all_append:
  "push_all R g cap prev n (cs @ ds) es =
     Option.bind (push_all R g cap prev n cs es) (\<lambda>e. push_all R g cap prev n ds e)"
proof (induction cs arbitrary: es)
  case Nil
  then show ?case by (simp add: push_all_Nil)
next
  case (Cons q cs)
  show ?case
    by (cases "Push R g cap (fst q) (snd q) prev n es") (simp_all add: push_all_Cons Cons)
qed

lemma push_all_if:
  "push_all R g cap prev n (if b then [q] else []) es = push_if b R g cap (fst q) (snd q) prev n es"
  by (cases "Push R g cap (fst q) (snd q) prev n es")
     (simp_all add: push_all_Cons push_all_Nil push_if_def)

lemma expand_push_all:
  "expand R g cap cur es =
     push_all R g cap cur (e_num_taps (es ! cur) + 1)
       (candidates R (e_rot (es ! cur)) (e_col (es ! cur)) (e_num_taps (es ! cur))
          (c_last_tap (g (e_rot (es ! cur), e_col (es ! cur))) AND kL \<noteq> 0)
          (c_last_tap (g (e_rot (es ! cur), e_col (es ! cur))) AND kR \<noteq> 0)
          (c_last_tap (g (e_rot (es ! cur), e_col (es ! cur))) AND kA \<noteq> 0)) es"
  unfolding expand_def candidates_def Let_def push_all_append push_all_if fst_conv snd_conv ..

lemma push_all_result:
  assumes "\<And>q. q \<in> set cs \<Longrightarrow> fst q < 256 \<and> snd q < 256" "prev < 256" "n < 256"
    and "length es + length (filter (\<lambda>q. \<not> c_cannot_reach (g q)) cs) \<le> cap"
  shows "push_all R g cap prev n cs es =
     Some (es @ map (make_entry R g prev n) (filter (\<lambda>q. \<not> c_cannot_reach (g q)) cs))"
  using assms(1,4)
proof (induction cs arbitrary: es)
  case Nil
  then show ?case by (simp add: push_all_Nil)
next
  case (Cons q cs)
  have q: "fst q < 256" "snd q < 256" using Cons.prems(1) [of q] by simp_all
  have P: "Push R g cap (fst q) (snd q) prev n es =
     (if c_cannot_reach (g q) then Some es
      else if length es < cap then Some (es @ [make_entry R g prev n q]) else None)"
    using Push_in_range [OF q assms(2,3), of R g cap es] by simp
  show ?case
  proof (cases "c_cannot_reach (g q)")
    case True
    then show ?thesis
      using Cons.IH [of es] Cons.prems by (simp add: push_all_Cons P)
  next
    case False
    then have "length es < cap" using Cons.prems(2) by simp
    moreover have "push_all R g cap prev n cs (es @ [make_entry R g prev n q]) =
        Some ((es @ [make_entry R g prev n q]) @
          map (make_entry R g prev n) (filter (\<lambda>q. \<not> c_cannot_reach (g q)) cs))"
      using Cons.prems False by (intro Cons.IH) simp_all
    ultimately show ?thesis using False by (simp add: push_all_Cons P)
  qed
qed

lemma positions_bound:
  fixes ps :: "(nat \<times> nat) list"
  assumes "distinct ps" "\<And>p. p \<in> set ps \<Longrightarrow> fst p < R \<and> snd p < 10"
  shows "length ps \<le> 10 * R"
proof -
  have "set ps \<subseteq> {0..<R} \<times> {0..<10::nat}" using assms(2) by (auto simp: prod_eq_iff)
  then have "card (set ps) \<le> card ({0..<R} \<times> {0..<10::nat})"
    by (intro card_mono) simp_all
  then show ?thesis using assms(1) by (simp add: distinct_card)
qed

lemma num_tap_of_root:
  assumes "ir < R"
  shows "num_tap_of R ir ic (ir, ic) = 0"
  using assms by (simp add: num_tap_of_def delta_of_def num_ab_def num_lr_def)

lemma num_tap_of_bound:
  assumes R: "R = 1 \<or> R = 2 \<or> R = 4" and "ir < R" "rot < R" "col < 10" "ic < 10"
  shows "num_tap_of R ir ic (rot, col) \<le> 9"
proof -
  have "delta_of R ir rot < 4" using delta_facts(1) [OF R assms(2,3)] by simp
  then have "num_ab (delta_of R ir rot) \<le> 2" by (auto simp: num_ab_def)
  moreover have "num_lr ic col \<le> 9" using assms(4,5) by (simp add: num_lr_def)
  ultimately show ?thesis by (simp add: num_tap_of_def)
qed

lemma make_entry_sel:
  "e_rot (make_entry R g prev n q) = fst q" "e_col (make_entry R g prev n q) = snd q"
  "e_prev (make_entry R g prev n q) = prev" "e_num_taps (make_entry R g prev n q) = n"
  "e_pos (make_entry R g prev n q) = q"
  "e_cannot_finish (make_entry R g prev n q) = c_cannot_finish (g q)"
  "e_masks (make_entry R g prev n q) = map (\<lambda>i. c_masks (g q) ! i) [0..<R]"
  "e_masks_nodrop (make_entry R g prev n q) = map (\<lambda>i. c_masks_nodrop (g q) ! i) [0..<R]"
  by (simp_all add: make_entry_def e_pos_def)

lemma entry_ok_taps:
  assumes "entry_ok R ir ic g e"
  shows "e_num_taps e = num_tap_of R ir ic (e_pos e)"
proof -
  have "e = make_entry R g (e_prev e) (num_tap_of R ir ic (e_pos e)) (e_pos e)"
    using assms by (simp add: entry_ok_def)
  then have "e_num_taps e =
      e_num_taps (make_entry R g (e_prev e) (num_tap_of R ir ic (e_pos e)) (e_pos e))"
    by simp
  then show ?thesis by (simp only: make_entry_sel)
qed

lemma entry_ok_make:
  assumes "fst q < R" "snd q < 10" "\<not> c_cannot_reach (g q)" "n = num_tap_of R ir ic q"
  shows "entry_ok R ir ic g (make_entry R g prev n q)"
  unfolding entry_ok_def make_entry_sel using assms by simp

lemma table_inv_length:
  assumes "table_inv R ir ic g cur es"
  shows "length es \<le> 10 * R"
proof (rule positions_bound [of "map e_pos es", simplified length_map])
  show "distinct (map e_pos es)" using assms by (simp add: table_inv_def)
  fix p assume "p \<in> set (map e_pos es)"
  then obtain e where e: "e \<in> set es" "p = e_pos e" by auto
  then have "entry_ok R ir ic g e" using assms by (simp add: table_inv_def list_all_iff)
  then show "fst p < R \<and> snd p < 10" using e by (simp add: entry_ok_def e_pos_def)
qed

lemma expand_inv:
  assumes R: "R = 1 \<or> R = 2 \<or> R = 4" and ir: "ir < R" and ic: "ic < 10"
    and g: "cells_ok R ir ic g" and inv: "table_inv R ir ic g cur es" and cur: "cur < length es"
  shows "\<exists>es'. expand R g (10 * R) cur es = Some es' \<and> table_inv R ir ic g (cur + 1) es'"
proof -
  define p where "p = e_pos (es ! cur)"
  define t where "t = num_tap_of R ir ic p"
  define cs where "cs = children R ir ic p"
  define new where "new = filter (\<lambda>q. \<not> c_cannot_reach (g q)) cs"
  have all_ok: "\<And>e. e \<in> set es \<Longrightarrow> entry_ok R ir ic g e"
    using inv by (simp add: table_inv_def list_all_iff)
  have dist: "distinct (map e_pos es)" using inv by (simp add: table_inv_def)
  have root: "e_pos (es ! 0) = (ir, ic)" using inv by (simp add: table_inv_def)
  have links: "\<And>j. 0 < j \<Longrightarrow> j < length es \<Longrightarrow>
      e_prev (es ! j) < j \<and> e_prev (es ! j) < cur \<and>
      e_pos (es ! e_prev (es ! j)) = before_tap R ir ic (e_pos (es ! j))"
    using inv by (simp add: table_inv_def)
  have len: "length es \<le> 10 * R" using inv by (rule table_inv_length)
  have R40: "10 * R \<le> 40" using R by auto
  have ok_cur: "entry_ok R ir ic g (es ! cur)" using all_ok cur by simp
  then have pr: "fst p < R" "snd p < 10" and pe: "p = (e_rot (es ! cur), e_col (es ! cur))"
    by (simp_all add: entry_ok_def p_def e_pos_def)
  have taps: "e_num_taps (es ! cur) = t"
    using entry_ok_taps [OF ok_cur] by (simp add: t_def p_def)
  have flags: "(c_last_tap (g p) AND kL \<noteq> 0) = flag_l R ir ic p"
    "(c_last_tap (g p) AND kR \<noteq> 0) = flag_r R ir ic p"
    "(c_last_tap (g p) AND kA \<noteq> 0) = flag_a R ir ic p"
    using g pr unfolding cells_ok_def pe by simp_all
  have ex: "expand R g (10 * R) cur es = push_all R g (10 * R) cur (t + 1) cs es"
    unfolding expand_push_all taps cs_def children_def t_def [symmetric]
    using flags unfolding pe by simp
  have child: "child_ok R ir ic p q" if "q \<in> set cs" for q
    using children_ok [OF R ir pr(1) pr(2) ic, of q] that unfolding cs_def by simp
  have dcs: "distinct cs"
    using children_distinct [OF R ir pr(1) pr(2) ic] unfolding cs_def by simp
  have fresh: "q \<notin> set (map e_pos es)" if "q \<in> set cs" for q
  proof
    assume "q \<in> set (map e_pos es)"
    then obtain j where j: "j < length es" "e_pos (es ! j) = q"
      by (auto simp: in_set_conv_nth)
    have c: "num_tap_of R ir ic q = t + 1" "before_tap R ir ic q = p"
      using child [OF that] by (simp_all add: child_ok_def t_def)
    show False
    proof (cases "j = 0")
      case True
      then have "q = (ir, ic)" using j root by simp
      then show False using c(1) num_tap_of_root [OF ir, of ic] by simp
    next
      case False
      then have l: "e_prev (es ! j) < j" "e_prev (es ! j) < cur"
        "e_pos (es ! e_prev (es ! j)) = p"
        using links [of j] j c(2) by simp_all
      then have "e_prev (es ! j) < length es" using j(1) by simp
      then have "e_prev (es ! j) = cur"
        using dist cur l(3) unfolding p_def
        by (auto simp: distinct_conv_nth)
      then show False using l(2) by simp
    qed
  qed
  have dnew: "distinct (map e_pos es @ new)"
    using dist dcs fresh by (auto simp: new_def)
  have "length (map e_pos es @ new) \<le> 10 * R"
  proof (rule positions_bound [OF dnew])
    fix q assume "q \<in> set (map e_pos es @ new)"
    then consider e where "e \<in> set es" "q = e_pos e" | "q \<in> set cs"
      by (auto simp: new_def)
    then show "fst q < R \<and> snd q < 10"
    proof cases
      case 1
      then show ?thesis using all_ok [of e] by (simp add: entry_ok_def e_pos_def)
    next
      case 2
      then show ?thesis using child [of q] by (simp add: child_ok_def)
    qed
  qed
  then have room: "length es + length new \<le> 10 * R" by simp
  have t9: "t \<le> 9" using num_tap_of_bound [OF R ir pr(1) pr(2) ic] by (simp add: t_def)
  have res: "push_all R g (10 * R) cur (t + 1) cs es =
      Some (es @ map (make_entry R g cur (t + 1)) new)"
    unfolding new_def
  proof (rule push_all_result)
    fix q assume "q \<in> set cs"
    then have "fst q < R \<and> snd q < 10" using child [of q] by (simp add: child_ok_def)
    then show "fst q < 256 \<and> snd q < 256" using R by auto
  next
    show "cur < 256" using cur len R40 by simp
    show "t + 1 < 256" using t9 by simp
    show "length es + length (filter (\<lambda>q. \<not> c_cannot_reach (g q)) cs) \<le> 10 * R"
      using room by (simp add: new_def)
  qed
  define es' where "es' = es @ map (make_entry R g cur (t + 1)) new"
  have ne: "es \<noteq> []" using cur by auto
  have old: "es' ! j = es ! j" if "j < length es" for j
    using that by (simp add: es'_def nth_append)
  have newer: "es' ! j = make_entry R g cur (t + 1) (new ! (j - length es)) \<and>
      new ! (j - length es) \<in> set cs"
    if "length es \<le> j" "j < length es'" for j
  proof -
    have k: "j - length es < length new" using that by (simp add: es'_def)
    then have "new ! (j - length es) \<in> set new" by simp
    then show ?thesis using that k by (simp add: es'_def nth_append new_def)
  qed
  have "table_inv R ir ic g (cur + 1) es'"
    unfolding table_inv_def
  proof (intro conjI allI impI)
    show "es' \<noteq> []" using ne by (simp add: es'_def)
    show "cur + 1 \<le> length es'" using cur by (simp add: es'_def)
    show "e_pos (es' ! 0) = (ir, ic)" using root ne old [of 0] by simp
    show "e_prev (es' ! 0) = 0" using inv ne old [of 0] by (simp add: table_inv_def)
    show "list_all (entry_ok R ir ic g) es'"
      unfolding es'_def list_all_append
    proof
      show "list_all (entry_ok R ir ic g) es" using inv by (simp add: table_inv_def)
      show "list_all (entry_ok R ir ic g) (map (make_entry R g cur (t + 1)) new)"
        unfolding list_all_iff
      proof
        fix e assume "e \<in> set (map (make_entry R g cur (t + 1)) new)"
        then obtain q where q: "q \<in> set cs" "\<not> c_cannot_reach (g q)"
          "e = make_entry R g cur (t + 1) q"
          by (auto simp: new_def)
        have "child_ok R ir ic p q" using child [OF q(1)] .
        then show "entry_ok R ir ic g e"
          unfolding q(3) using q(2)
          by (intro entry_ok_make) (simp_all add: child_ok_def t_def)
      qed
    qed
    show "distinct (map e_pos es')"
    proof -
      have "map e_pos (map (make_entry R g cur (t + 1)) new) = new"
        by (simp add: o_def make_entry_sel)
      then show ?thesis using dnew by (simp add: es'_def)
    qed
  next
    fix j assume j: "0 < j \<and> j < length es'"
    show "e_prev (es' ! j) < j"
    proof (cases "j < length es")
      case True
      then show ?thesis using links [of j] j old [of j] by simp
    next
      case False
      then show ?thesis using newer [of j] j cur by (simp add: make_entry_sel)
    qed
    show "e_prev (es' ! j) < cur + 1"
    proof (cases "j < length es")
      case True
      then show ?thesis using links [of j] j old [of j] by simp
    next
      case False
      then show ?thesis using newer [of j] j by (simp add: make_entry_sel)
    qed
    show "e_pos (es' ! e_prev (es' ! j)) = before_tap R ir ic (e_pos (es' ! j))"
    proof (cases "j < length es")
      case True
      then have "e_prev (es ! j) < length es" using links [of j] j by simp
      then show ?thesis using links [of j] j old [of j] True old [of "e_prev (es ! j)"] by simp
    next
      case False
      then have n: "es' ! j = make_entry R g cur (t + 1) (new ! (j - length es))"
        "new ! (j - length es) \<in> set cs"
        using newer [of j] j by simp_all
      have "before_tap R ir ic (new ! (j - length es)) = p"
        using child [OF n(2)] by (simp add: child_ok_def)
      then show ?thesis
        unfolding n(1) make_entry_sel using old [OF cur] by (simp add: p_def)
    qed
  qed
  then show ?thesis using ex res by (simp add: es'_def)
qed

lemma bfs_inv_aux:
  assumes R: "R = 1 \<or> R = 2 \<or> R = 4" and ir: "ir < R" and ic: "ic < 10"
    and g: "cells_ok R ir ic g"
  shows "10 * R - cur = n \<Longrightarrow> table_inv R ir ic g cur es \<Longrightarrow>
     \<exists>es'. bfs R g (10 * R) cur es = Some es' \<and> table_inv R ir ic g (length es') es'"
proof (induction n arbitrary: cur es)
  case 0
  have "length es \<le> 10 * R" using 0(2) by (rule table_inv_length)
  moreover have "cur \<le> length es" using 0(2) by (simp add: table_inv_def)
  ultimately have "cur = length es" using 0(1) by simp
  then show ?case using 0(2) by (subst bfs.simps) simp
next
  case (Suc n)
  have len: "length es \<le> 10 * R" using Suc(3) by (rule table_inv_length)
  show ?case
  proof (cases "cur < length es")
    case True
    obtain es1 where e: "expand R g (10 * R) cur es = Some es1"
      "table_inv R ir ic g (cur + 1) es1"
      using expand_inv [OF R ir ic g Suc(3) True] by blast
    have "10 * R - (cur + 1) = n" using Suc(2) by simp
    then obtain es' where "bfs R g (10 * R) (cur + 1) es1 = Some es'"
      "table_inv R ir ic g (length es') es'"
      using Suc.IH [OF _ e(2)] by blast
    then show ?thesis using True len e(1) by (subst bfs.simps) simp
  next
    case False
    moreover have "cur \<le> length es" using Suc(3) by (simp add: table_inv_def)
    ultimately have "cur = length es" by simp
    then show ?thesis using Suc(3) by (subst bfs.simps) simp
  qed
qed

lemma Phase1TableGen_table:
  assumes R: "R = 1 \<or> R = 2 \<or> R = 4" and ir: "ir < R" and ic: "ic < 10"
  shows "\<exists>es. Phase1TableGen level R taps fr ir ic = Some es \<and>
     table_ok R ir ic (gen_cells level R taps fr ir ic) es"
proof -
  define g where "g = gen_cells level R taps fr ir ic"
  have g: "cells_ok R ir ic g" unfolding g_def using R ir by (rule gen_cells_ok)
  have P: "Push R g (10 * R) ir ic 0 0 [] =
      (if c_cannot_reach (g (ir, ic)) then Some []
       else Some [make_entry R g 0 0 (ir, ic)])"
    using R ir ic by (subst Push_in_range) auto
  show ?thesis
  proof (cases "c_cannot_reach (g (ir, ic))")
    case True
    have "bfs R g (10 * R) 0 [] = Some []" by (subst bfs.simps) simp
    then show ?thesis
      using True P by (simp add: Phase1TableGen_def g_def [symmetric] table_ok_def)
  next
    case False
    have "table_inv R ir ic g 0 [make_entry R g 0 0 (ir, ic)]"
      unfolding table_inv_def
      using False ir ic entry_ok_make [of "(ir, ic)" R g 0 ir ic 0] num_tap_of_root [OF ir, of ic]
      by (auto simp: make_entry_sel)
    then obtain es' where "bfs R g (10 * R) 0 [make_entry R g 0 0 (ir, ic)] = Some es'"
      "table_inv R ir ic g (length es') es'"
      using bfs_inv_aux [OF R ir ic g refl] by blast
    then show ?thesis
      using False P by (simp add: Phase1TableGen_def g_def [symmetric] table_ok_def)
  qed
qed


section \<open>Normalisation\<close>

lemma UniqueVector_sorted: "sorted (UniqueVector p u)"
  by (simp add: UniqueVector_def sorted_remdups_adj)

lemma sorted_distinct_adj:
  fixes xs :: "('a :: linorder) list"
  shows "sorted xs \<Longrightarrow> distinct_adj xs \<Longrightarrow> distinct xs"
proof (induction xs)
  case Nil
  then show ?case by simp
next
  case (Cons x xs)
  have rest: "distinct xs" using Cons by (auto simp: distinct_adj_Cons)
  have "x \<notin> set xs"
  proof
    assume m: "x \<in> set xs"
    then have ne: "xs \<noteq> []" by auto
    then have h: "hd xs \<in> set xs" by simp
    have "x \<le> hd xs" using Cons.prems(1) h by simp
    moreover have "hd xs \<le> x"
      using Cons.prems(1) m ne by (cases xs) auto
    moreover have "x \<noteq> hd xs" using Cons.prems(2) ne by (simp add: distinct_adj_Cons)
    ultimately show False by simp
  qed
  then show ?case using rest by simp
qed

lemma UniqueVector_distinct: "distinct (UniqueVector p u)"
  using UniqueVector_sorted [of p u] distinct_adj_remdups_adj [of "sort p"]
  by (intro sorted_distinct_adj) (simp_all add: UniqueVector_def)

lemma UniqueVector_set: "set (UniqueVector p u) = set p"
  by (simp add: UniqueVector_def)

lemma UniqueVector_fixed: "UniqueVector (UniqueVector p u) v = UniqueVector p u"
proof -
  have "sort (UniqueVector p u) = UniqueVector p u"
    using UniqueVector_sorted by (simp add: sort_key_id_if_sorted)
  moreover have "remdups_adj (UniqueVector p u) = UniqueVector p u"
    using distinct_adj_remdups_adj [of "sort p"]
    by (simp add: UniqueVector_def distinct_adj_altdef)
  ultimately show ?thesis
    by (simp add: UniqueVector_def [of "UniqueVector p u"])
qed

lemma map_fixed_sort:
  fixes ys :: "('a :: linorder) list"
  assumes "\<And>y. y \<in> set ys \<Longrightarrow> f y = y"
  shows "map f (sort ys) = sort ys"
proof (rule map_idI)
  fix y assume "y \<in> set (sort ys)"
  then show "f y = y" using assms by simp
qed

lemma sorted_by_anchor:
  fixes xs :: "(Position \<times> Position list) list"
  assumes "sorted xs"
  shows "sorted (map fst xs)"
proof -
  have "sorted_wrt (\<lambda>a b. fst a \<le> fst b) xs"
    using assms by (rule sorted_wrt_mono_rel [rotated]) (auto simp: less_eq_prod_def)
  then show ?thesis by (simp add: sorted_map)
qed

lemma Normalize_twice: "Normalize v (Normalize u x) = Normalize u x"
proof -
  let ?f = "\<lambda>w (i :: Position \<times> Position list). (fst i, UniqueVector (snd i) w)"
  let ?ys = "map (?f u) (adj x)"
  have fixed: "\<And>y. y \<in> set ?ys \<Longrightarrow> ?f v y = y"
    by (auto simp: UniqueVector_fixed)
  have "map (?f v) (sort ?ys) = sort ?ys"
    by (rule map_fixed_sort) (rule fixed)
  then have "sort (map (?f v) (sort ?ys)) = sort ?ys"
    by (simp add: sort_key_id_if_sorted)
  then show ?thesis
    by (simp add: Normalize_def UniqueVector_fixed)
qed

text \<open>
  C9. \<open>PossibleMoves::Normalize\<close> is idempotent, whatever flags the two calls are given, and
  its result is in normal form: \<open>non_adj\<close> and the moves of every element of \<open>adj\<close> are
  sorted and free of duplicates, \<open>adj\<close> is sorted (as pairs, hence also by anchor), and
  nothing is lost: \<open>non_adj\<close> keeps its set of positions, \<open>adj\<close> keeps its length and every
  anchor keeps its set of moves.
\<close>

theorem Normalize_idempotent:
  "Normalize v (Normalize u x) = Normalize u x \<and>
   sorted (non_adj (Normalize u x)) \<and> distinct (non_adj (Normalize u x)) \<and>
   set (non_adj (Normalize u x)) = set (non_adj x) \<and>
   list_all (\<lambda>i. sorted (snd i) \<and> distinct (snd i)) (adj (Normalize u x)) \<and>
   sorted (adj (Normalize u x)) \<and> sorted (map fst (adj (Normalize u x))) \<and>
   length (adj (Normalize u x)) = length (adj x) \<and>
   set (map (\<lambda>i. (fst i, set (snd i))) (adj (Normalize u x))) =
     set (map (\<lambda>i. (fst i, set (snd i))) (adj x))"
proof -
  have a: "adj (Normalize u x) = sort (map (\<lambda>i. (fst i, UniqueVector (snd i) u)) (adj x))"
    and n: "non_adj (Normalize u x) = UniqueVector (non_adj x) u"
    by (simp_all add: Normalize_def)
  have s: "sorted (adj (Normalize u x))" unfolding a by simp
  have m: "list_all (\<lambda>i. sorted (snd i) \<and> distinct (snd i)) (adj (Normalize u x))"
    unfolding a by (auto simp: list_all_iff UniqueVector_sorted UniqueVector_distinct)
  have e: "set (map (\<lambda>i. (fst i, set (snd i))) (adj (Normalize u x))) =
     set (map (\<lambda>i. (fst i, set (snd i))) (adj x))"
    unfolding a by (simp add: image_image UniqueVector_set)
  show ?thesis
    using Normalize_twice [of v u x] s sorted_by_anchor [OF s] m e
    by (simp add: n a UniqueVector_sorted UniqueVector_distinct UniqueVector_set)
qed

lemma Normalize_example:
  "Normalize False
     \<lparr> non_adj = [(1, 0, 0), (0, 0, 0), (1, 0, 0)],
       adj = [((0, 3, 5), [(0, 19, 6), (0, 19, 4), (0, 19, 6)]), ((0, 1, 5), [])] \<rparr> =
     \<lparr> non_adj = [(0, 0, 0), (1, 0, 0)],
       adj = [((0, 1, 5), []), ((0, 3, 5), [(0, 19, 4), (0, 19, 6)])] \<rparr>"
  by code_simp



section \<open>Reachability and phase 1\<close>

lemma reach_step_other:
  "j \<noteq> i \<Longrightarrow> fst (reach_step R board es i s) j = fst s j \<and>
     snd (reach_step R board es i s) j = snd s j"
  by (cases s) (simp add: reach_step_def Let_def)

lemma reach_step_at:
  assumes "\<not> fst s i" "\<not> snd s i" "i = 0 \<or> e_prev (es ! i) \<noteq> i"
  shows "reach_closed R board es (fst (reach_step R board es i s))
           (snd (reach_step R board es i s)) i"
  using assms by (cases s) (auto simp: reach_step_def reach_closed_def Let_def)

lemma reach_prefix:
  assumes links: "\<And>i. 0 < i \<Longrightarrow> i < length es \<Longrightarrow> e_prev (es ! i) < i"
  shows "k \<le> length es \<Longrightarrow>
     (\<forall>i. (k \<le> i \<longrightarrow> \<not> fst (fold (reach_step R board es) [0..<k] (\<lambda>_. False, \<lambda>_. False)) i \<and>
                     \<not> snd (fold (reach_step R board es) [0..<k] (\<lambda>_. False, \<lambda>_. False)) i) \<and>
          (i < k \<longrightarrow> reach_closed R board es
                     (fst (fold (reach_step R board es) [0..<k] (\<lambda>_. False, \<lambda>_. False)))
                     (snd (fold (reach_step R board es) [0..<k] (\<lambda>_. False, \<lambda>_. False))) i))"
proof (induction k)
  case 0
  then show ?case by simp
next
  case (Suc k)
  define s where "s = fold (reach_step R board es) [0..<k] (\<lambda>_. False, \<lambda>_. False)"
  define s' where "s' = reach_step R board es k s"
  have s': "fold (reach_step R board es) [0..<Suc k] (\<lambda>_. False, \<lambda>_. False) = s'"
    by (simp add: s'_def s_def)
  have IH: "\<And>i. k \<le> i \<Longrightarrow> \<not> fst s i \<and> \<not> snd s i"
    "\<And>i. i < k \<Longrightarrow> reach_closed R board es (fst s) (snd s) i"
    using Suc by (simp_all add: s_def)
  have other: "\<And>j. j \<noteq> k \<Longrightarrow> fst s' j = fst s j \<and> snd s' j = snd s j"
    unfolding s'_def by (rule reach_step_other)
  have pk: "k = 0 \<or> e_prev (es ! k) \<noteq> k"
  proof (cases "k = 0")
    case False
    then have "e_prev (es ! k) < k" using links [of k] Suc.prems by simp
    then show ?thesis by simp
  qed simp
  show ?case unfolding s'
  proof (intro allI conjI impI)
    fix i assume "Suc k \<le> i"
    then show "\<not> fst s' i" "\<not> snd s' i" using other [of i] IH(1) [of i] by simp_all
  next
    fix i assume i: "i < Suc k"
    show "reach_closed R board es (fst s') (snd s') i"
    proof (cases "i = k")
      case True
      show ?thesis
        unfolding True s'_def using IH(1) [of k] pk by (intro reach_step_at) simp_all
    next
      case False
      then have ik: "i < k" using i by simp
      have "i = 0 \<or> e_prev (es ! i) < k"
      proof (cases "i = 0")
        case False
        then have "e_prev (es ! i) < i" using links [of i] ik Suc.prems by simp
        then show ?thesis using ik by simp
      qed simp
      then have "i = 0 \<or> fst s' (e_prev (es ! i)) = fst s (e_prev (es ! i))"
        using other by auto
      then show ?thesis
        using IH(2) [OF ik] other [of i] False unfolding reach_closed_def by auto
    qed
  qed
qed

lemma reach_spec:
  assumes "\<And>i. 0 < i \<Longrightarrow> i < length es \<Longrightarrow> e_prev (es ! i) < i"
  shows "i < length es \<Longrightarrow>
           reach_closed R board es (fst (reach R board es)) (snd (reach R board es)) i"
    and "length es \<le> i \<Longrightarrow> \<not> fst (reach R board es) i \<and> \<not> snd (reach R board es) i"
  using reach_prefix [OF assms, of "length es" R board] unfolding reach_def by simp_all


section \<open>The second loop of phase 1\<close>

lemma phase1_step_fields:
  fixes level adj_frame taps is_adj initial_frame cols entries can_reach i st
  defines "e \<equiv> entries ! i"
  defines "st' \<equiv> phase1_step level adj_frame taps is_adj initial_frame cols entries can_reach i st"
  defines "late \<equiv> \<not> is_adj \<and> entry_lock_frame level taps initial_frame cols e >
                     entry_end_frame level adj_frame taps is_adj e"
  defines "open_window \<equiv> entry_last_tuck level adj_frame taps is_adj initial_frame cols e >
                     entry_first_tuck taps initial_frame e"
  shows "positions st' = positions st @
           (if can_reach i \<and> \<not> late then [entry_placement level taps initial_frame cols e] else [])"
    and "can_adj st' = (if can_reach i \<and> late then (can_adj st)(i := True) else can_adj st)"
    and "lock_positions_without_tuck st' =
           (if can_reach i
            then (lock_positions_without_tuck st)
                   (e_pos e := lock_positions_without_tuck st (e_pos e) OR
                      push_bit (nat (entry_lock_row level taps initial_frame cols e)) 1)
            else lock_positions_without_tuck st)"
    and "can_tuck_frame_masks st' =
           (if can_reach i \<and> open_window
            then (can_tuck_frame_masks st)
                   (e_pos e := window_mask (entry_first_tuck taps initial_frame e)
                      (entry_last_tuck level adj_frame taps is_adj initial_frame cols e))
            else can_tuck_frame_masks st)"
    and "phase_2_possible st' \<longleftrightarrow> phase_2_possible st \<or> (can_reach i \<and> open_window)"
proof -
  define lf where "lf = GetLastFrameOnRow (entry_lock_row level taps initial_frame cols e) level + 1"
  define ef where "ef = entry_end_frame level adj_frame taps is_adj e"
  define ft where "ft = initial_frame + taps ! e_num_taps e"
  define pl where "pl = (int (e_rot e), entry_lock_row level taps initial_frame cols e, int (e_col e))"
  define lb :: Column where "lb = push_bit (nat (entry_lock_row level taps initial_frame cols e)) 1"
  define wm :: Frames where "wm = push_bit (nat (min lf ef)) 1 - push_bit (nat ft) 1"
  have st': "st' = (if \<not> can_reach i then st
      else
        (let st1 = (if \<not> is_adj \<and> lf > ef
                    then st\<lparr> can_adj := (can_adj st)(i := True) \<rparr>
                    else st\<lparr> positions := positions st @ [pl] \<rparr>);
             st2 = st1\<lparr> lock_positions_without_tuck :=
                         (lock_positions_without_tuck st1)
                           ((e_rot e, e_col e) :=
                              lock_positions_without_tuck st1 (e_rot e, e_col e) OR lb) \<rparr>
         in if min lf ef > ft
            then st2\<lparr> can_tuck_frame_masks :=
                        (can_tuck_frame_masks st2)((e_rot e, e_col e) := wm),
                      phase_2_possible := True \<rparr>
            else st2))"
    unfolding st'_def phase1_step_def Let_def lf_def ef_def ft_def pl_def lb_def wm_def e_def ..
  have late: "late \<longleftrightarrow> \<not> is_adj \<and> lf > ef"
    by (simp add: late_def lf_def ef_def entry_lock_frame_def)
  have ow: "open_window \<longleftrightarrow> min lf ef > ft"
    by (simp add: open_window_def lf_def ef_def ft_def entry_lock_frame_def entry_last_tuck_def
        entry_first_tuck_def)
  have w: "window_mask (entry_first_tuck taps initial_frame e)
             (entry_last_tuck level adj_frame taps is_adj initial_frame cols e) = wm"
    unfolding wm_def window_mask_def lf_def ef_def ft_def entry_lock_frame_def entry_last_tuck_def
        entry_first_tuck_def ..
  have p: "entry_placement level taps initial_frame cols e = pl"
    by (simp add: entry_placement_def pl_def)
  show "positions st' = positions st @
           (if can_reach i \<and> \<not> late then [entry_placement level taps initial_frame cols e] else [])"
    unfolding st' late p Let_def by simp
  show "can_adj st' = (if can_reach i \<and> late then (can_adj st)(i := True) else can_adj st)"
    unfolding st' late Let_def by simp
  show "lock_positions_without_tuck st' =
           (if can_reach i
            then (lock_positions_without_tuck st)
                   (e_pos e := lock_positions_without_tuck st (e_pos e) OR
                      push_bit (nat (entry_lock_row level taps initial_frame cols e)) 1)
            else lock_positions_without_tuck st)"
    unfolding st' lb_def [symmetric] e_pos_def Let_def by simp
  show "can_tuck_frame_masks st' =
           (if can_reach i \<and> open_window
            then (can_tuck_frame_masks st)
                   (e_pos e := window_mask (entry_first_tuck taps initial_frame e)
                      (entry_last_tuck level adj_frame taps is_adj initial_frame cols e))
            else can_tuck_frame_masks st)"
    unfolding st' ow w e_pos_def Let_def by simp
  show "phase_2_possible st' \<longleftrightarrow> phase_2_possible st \<or> (can_reach i \<and> open_window)"
    unfolding st' ow Let_def by auto
qed

end
